theory Spec2Isabelle
  imports
    Main
    "HOL-Library.AList"
    "HOL-Library.Char_ord"
    "HOL-Library.List_Lexorder"
    "HOL-Library.Product_Lexorder"
    "HOL-Library.Sublist"
begin

section \<open>Strings\<close>

text \<open>
  Python strings are modelled as \<^typ>\<open>string\<close>, one \<^typ>\<open>char\<close> per code point (so the
  model covers code points below 256). Python compares strings code point by code point,
  a proper prefix being smaller; that is the lexicographic order of
  \<^theory_text>\<open>List_Lexorder\<close> over the order of \<^theory_text>\<open>Char_ord\<close>.
\<close>

abbreviation slash :: char where
  "slash \<equiv> CHR ''/''"

text \<open>\<^verbatim>\<open>s.rstrip("/")\<close>: every trailing slash is removed.\<close>

definition rstrip_slash :: "string \<Rightarrow> string" where
  "rstrip_slash s = rev (dropWhile (\<lambda>c. c = slash) (rev s))"

text \<open>
  \<^verbatim>\<open>s.split("/")\<close>: the pieces between the slashes, one more piece than there are
  slashes; the empty string splits into one empty piece.
\<close>

fun split_slash :: "string \<Rightarrow> string list" where
  "split_slash [] = [[]]"
| "split_slash (c # cs) =
     (if c = slash then [] # split_slash cs
      else (case split_slash cs of
              [] \<Rightarrow> [[c]]
            | w # ws \<Rightarrow> (c # w) # ws))"

text \<open>\<^verbatim>\<open>"/".join(parts)\<close>.\<close>

fun join_slash :: "string list \<Rightarrow> string" where
  "join_slash [] = []"
| "join_slash [w] = w"
| "join_slash (w # v # ws) = w @ slash # join_slash (v # ws)"

text \<open>
  \<^verbatim>\<open>re.sub(r"<[^>]+>", "", url)\<close>: scanning from the left, a \<open><\<close> followed by at
  least one character other than \<open>>\<close> and then by a \<open>>\<close> is removed together with
  what it encloses (the class \<open>[^>]\<close> cannot run over a \<open>>\<close>, so the match ends at
  the first \<open>>\<close> after the \<open><\<close>); a \<open><\<close> that starts no match is kept and
  the scan goes on behind it.
\<close>

function strip_variables :: "string \<Rightarrow> string" where
  "strip_variables [] = []"
| "strip_variables (c # cs) =
     (if c = CHR ''<''
         \<and> takeWhile (\<lambda>x. x \<noteq> CHR ''>'') cs \<noteq> []
         \<and> dropWhile (\<lambda>x. x \<noteq> CHR ''>'') cs \<noteq> []
      then strip_variables (tl (dropWhile (\<lambda>x. x \<noteq> CHR ''>'') cs))
      else c # strip_variables cs)"
  by pat_completeness auto
termination
proof (relation "measure length")
  show "wf (measure (length :: string \<Rightarrow> nat))" by simp
next
  fix c :: char and cs :: string
  have "length (tl (dropWhile (\<lambda>x. x \<noteq> CHR ''>'') cs)) \<le> length cs"
    using length_dropWhile_le [of "\<lambda>x. x \<noteq> CHR ''>''" cs] by simp
  then show "(tl (dropWhile (\<lambda>x. x \<noteq> CHR ''>'') cs), c # cs) \<in> measure length"
    by simp
next
  fix c :: char and cs :: string
  show "(cs, c # cs) \<in> measure length" by simp
qed

text \<open>
  \<^verbatim>\<open>re.sub(r"//+", "/", url)\<close>: every maximal run of two or more slashes becomes one
  slash.
\<close>

fun collapse_slashes :: "string \<Rightarrow> string" where
  "collapse_slashes [] = []"
| "collapse_slashes [c] = [c]"
| "collapse_slashes (c # d # cs) =
     (if c = slash \<and> d = slash then collapse_slashes (d # cs)
      else c # collapse_slashes (d # cs))"

section \<open>The route catalog\<close>

text \<open>
  The body of the loop of \<^verbatim>\<open>_get_routes\<close> on one rule string: variable parts are
  removed, slashes collapsed, and one trailing slash is dropped unless the url is the
  root.
\<close>

definition normalize_url :: "string \<Rightarrow> string" where
  "normalize_url pattern =
     (let url = strip_variables pattern;
          url = collapse_slashes url
      in if url \<noteq> ''/'' \<and> url \<noteq> [] \<and> last url = slash then butlast url else url)"

text \<open>
  A rule of the url map: its string, its endpoint and its methods, a set of strings as
  Flask gives every rule it registers (a rule whose methods are \<^verbatim>\<open>None\<close> is outside
  the model).
\<close>

record rule =
  rule_str :: string
  endpoint :: string
  methods :: "string set"

type_synonym route = "string \<times> string \<times> string set"

text \<open>
  \<^verbatim>\<open>_get_routes\<close>. The source keeps the list it computed at the first call; the url
  map does not change afterwards, so the model computes the list from the rules.
\<close>

definition get_routes :: "rule list \<Rightarrow> route list" where
  "get_routes rules = map (\<lambda>r. (normalize_url (rule_str r), endpoint r, methods r)) rules"

section \<open>Parent urls and descendants\<close>

text \<open>\<^verbatim>\<open>_get_parent_url\<close>.\<close>

definition get_parent_url :: "string \<Rightarrow> string" where
  "get_parent_url url0 =
     (let url = rstrip_slash url0
      in if url = [] then ''/''
         else let parts = split_slash url
              in if length parts \<le> 2 then ''/''
                 else join_slash (butlast parts))"

text \<open>
  \<^verbatim>\<open>_is_child_of\<close>. The index \<^verbatim>\<open>child_url[parent_len]\<close> is read only after the
  length test, so it is in range.
\<close>

definition is_child_of :: "string \<Rightarrow> string \<Rightarrow> bool" where
  "is_child_of child_url parent_url =
     (if parent_url = ''/'' then child_url \<noteq> ''/''
      else let parent_len = length parent_url
           in length child_url > parent_len + 1
              \<and> take parent_len child_url = parent_url
              \<and> child_url ! parent_len = slash)"

section \<open>Labels, metadata and breadcrumb items\<close>

text \<open>
  A breadcrumb text is a string or a callable without arguments that returns one; the
  code calls the callable where it needs the string. A callable is modelled by the
  string it returns: one that raises, or that needs a request other than the one at
  hand, is outside the model, and no statement below is about it.
\<close>

datatype label = Static string | Producer "unit \<Rightarrow> string"

fun resolve_text :: "label \<Rightarrow> string" where
  "resolve_text (Static s) = s"
| "resolve_text (Producer f) = f ()"

text \<open>
  What the decorator stores for an endpoint: all three keys are always present, and
  \<^verbatim>\<open>order\<close> and \<^verbatim>\<open>max_depth\<close> are \<^verbatim>\<open>None\<close> when not given.
\<close>

record metadata =
  md_text :: label
  md_order :: "int option"
  md_max_depth :: "int option"

text \<open>The extension object: \<^verbatim>\<open>breadcrumb_metadata\<close>, a dict from endpoint names.\<close>

record breadcrumb_ext =
  breadcrumb_metadata :: "string \<rightharpoonup> metadata"

text \<open>
  \<^verbatim>\<open>BreadcrumbItem\<close>. The constructor turns the order \<^verbatim>\<open>None\<close> into 0 and starts
  with no children.
\<close>

datatype breadcrumb_item =
  BreadcrumbItem (item_text: label) (item_url: string) (item_order: int)
    (item_is_current_path: bool) (item_children: "breadcrumb_item list")

definition new_item :: "label \<Rightarrow> string \<Rightarrow> int option \<Rightarrow> bool \<Rightarrow> breadcrumb_item" where
  "new_item t u ord cur =
     BreadcrumbItem t u (case ord of None \<Rightarrow> 0 | Some n \<Rightarrow> n) cur []"

text \<open>
  \<^verbatim>\<open>BreadcrumbItem.add_child\<close>: a child whose url is already there is not added;
  otherwise it is appended and the children are sorted by order, then url.
\<close>

definition add_child :: "breadcrumb_item \<Rightarrow> breadcrumb_item \<Rightarrow> breadcrumb_item" where
  "add_child self child =
     (if \<exists>existing_child \<in> set (item_children self). item_url existing_child = item_url child
      then self
      else BreadcrumbItem (item_text self) (item_url self) (item_order self)
             (item_is_current_path self)
             (sort_key (\<lambda>x. (item_order x, item_url x)) (item_children self @ [child])))"

text \<open>
  The dictionaries the tree is made of: text, url, order, is_current_path, children.
  \<^verbatim>\<open>_build_breadcrumb_tree\<close> returns such a dictionary or the empty dictionary,
  which is \<open>None\<close> here.
\<close>

datatype node =
  Node (node_text: string) (node_url: string) (node_order: int)
    (node_is_current_path: bool) (node_children: "node list")

section \<open>Default texts\<close>

text \<open>
  \<^verbatim>\<open>str.title()\<close> on ASCII letters: a letter that follows a letter is lowered, any
  other letter is raised. Characters outside \<open>a..z\<close> and \<open>A..Z\<close> are taken as
  uncased and left as they are.
\<close>

definition is_lower :: "char \<Rightarrow> bool" where
  "is_lower c = (CHR ''a'' \<le> c \<and> c \<le> CHR ''z'')"

definition is_upper :: "char \<Rightarrow> bool" where
  "is_upper c = (CHR ''A'' \<le> c \<and> c \<le> CHR ''Z'')"

definition to_upper :: "char \<Rightarrow> char" where
  "to_upper c = (if is_lower c then char_of (of_char c - (32::nat)) else c)"

definition to_lower :: "char \<Rightarrow> char" where
  "to_lower c = (if is_upper c then char_of (of_char c + (32::nat)) else c)"

fun title_from :: "bool \<Rightarrow> string \<Rightarrow> string" where
  "title_from previous_is_cased [] = []"
| "title_from previous_is_cased (c # cs) =
     (if previous_is_cased then to_lower c else to_upper c)
       # title_from (is_lower c \<or> is_upper c) cs"

definition title :: "string \<Rightarrow> string" where
  "title s = title_from False s"

text \<open>\<^verbatim>\<open>_generate_default_text\<close>.\<close>

definition generate_default_text :: "string \<Rightarrow> string" where
  "generate_default_text url0 =
     (let url = rstrip_slash url0
      in if url = [] then ''Home''
         else let parts = split_slash url;
                  last_part = last parts;
                  last_part = title (map (\<lambda>c. if c = CHR ''-'' \<or> c = CHR ''_'' then CHR '' '' else c)
                                       last_part)
              in if last_part = [] then ''Home'' else last_part)"

section \<open>Dictionaries\<close>

text \<open>
  A Python dictionary keeps its keys in insertion order, and the code iterates over
  several of them, so a dictionary is an association list: \<^verbatim>\<open>d[k] = v\<close> is
  \<^const>\<open>AList.update\<close> (an old key keeps its place, a new key goes to the end),
  \<^verbatim>\<open>k in d\<close> is \<open>has_key\<close>, \<^verbatim>\<open>d.get(k, default)\<close> is \<open>dict_get\<close>, and
  \<^verbatim>\<open>d[k]\<close>, which raises \<^verbatim>\<open>KeyError\<close> on a missing key, is \<open>dict_item\<close>.
\<close>

datatype error = KeyError

definition has_key :: "('k \<times> 'v) list \<Rightarrow> 'k \<Rightarrow> bool" where
  "has_key d k = (map_of d k \<noteq> None)"

definition dict_get :: "('k \<times> 'v) list \<Rightarrow> 'k \<Rightarrow> 'v \<Rightarrow> 'v" where
  "dict_get d k dflt = (case map_of d k of None \<Rightarrow> dflt | Some v \<Rightarrow> v)"

definition dict_item :: "('k \<times> 'v) list \<Rightarrow> 'k \<Rightarrow> error + 'v" where
  "dict_item d k = (case map_of d k of None \<Rightarrow> Inl KeyError | Some v \<Rightarrow> Inr v)"

section \<open>Materializing the items\<close>

type_synonym items = "(string \<times> breadcrumb_item) list"

text \<open>
  The state of the first loop of \<^verbatim>\<open>_build_breadcrumb_tree\<close>:
  \<^verbatim>\<open>breadcrumb_items\<close> and \<^verbatim>\<open>is_current_path_map\<close>.
\<close>

type_synonym materialized = "items \<times> (string \<times> bool) list"

text \<open>
  One turn of that loop. A route without \<^verbatim>\<open>GET\<close> or whose endpoint starts with
  \<^verbatim>\<open>static\<close> is skipped. An endpoint without metadata gets the default text and the
  order 0; an endpoint with metadata gets what the decorator stored.
\<close>

definition add_route :: "breadcrumb_ext \<Rightarrow> string \<Rightarrow> route \<Rightarrow> materialized \<Rightarrow> materialized" where
  "add_route self current_path r st =
     (case r of (u, ep, ms) \<Rightarrow>
        if ''GET'' \<notin> ms \<or> prefix ''static'' ep then st
        else let txt = (case breadcrumb_metadata self ep of
                          None \<Rightarrow> Static (generate_default_text u)
                        | Some m \<Rightarrow> md_text m);
                 ord = (case breadcrumb_metadata self ep of
                          None \<Rightarrow> Some 0
                        | Some m \<Rightarrow> md_order m);
                 is_current = (u = current_path)
             in (AList.update u (new_item txt u ord is_current) (fst st),
                 AList.update u is_current (snd st)))"

definition materialize :: "breadcrumb_ext \<Rightarrow> string \<Rightarrow> route list \<Rightarrow> materialized" where
  "materialize self current_path routes = fold (add_route self current_path) routes ([], [])"

text \<open>\<^verbatim>\<open>if "/" not in breadcrumb_items\<close>: the root item is made up.\<close>

definition ensure_root :: "string \<Rightarrow> materialized \<Rightarrow> materialized" where
  "ensure_root current_path st =
     (if \<not> has_key (fst st) ''/''
      then let is_current = (current_path = ''/'')
           in (AList.update ''/'' (new_item (Static ''Home'') ''/'' (Some 0) is_current) (fst st),
               AList.update ''/'' is_current (snd st))
      else st)"

section \<open>The walk from the current path to the root\<close>

text \<open>
  \<^verbatim>\<open>parent_url_map\<close>: the parent url of every key of \<^verbatim>\<open>breadcrumb_items\<close>. The
  keys of a dictionary are distinct, so the list of the entries in the order of the
  loop is the dictionary.
\<close>

definition parent_url_map :: "items \<Rightarrow> (string \<times> string) list" where
  "parent_url_map breadcrumb_items = map (\<lambda>(u, _). (u, get_parent_url u)) breadcrumb_items"

text \<open>
  The \<^verbatim>\<open>while path != "/"\<close> loop, written as the source has it, with nothing said
  about whether it ends: \<open>None\<close> stands for a loop that runs forever.
\<close>

partial_function (option) ancestor_walk :: "items \<Rightarrow> string \<Rightarrow> string list \<Rightarrow> string list option" where
  "ancestor_walk breadcrumb_items path path_to_root =
     (if path \<noteq> ''/''
      then let path_to_root = (if has_key breadcrumb_items path
                               then path_to_root @ [path] else path_to_root);
               parent_path = dict_get (parent_url_map breadcrumb_items) path (get_parent_url path)
           in if parent_path = path then Some path_to_root
              else ancestor_walk breadcrumb_items parent_path path_to_root
      else Some path_to_root)"

declare ancestor_walk.simps [code]

text \<open>Facts about splitting and joining that the measure of the walk needs.\<close>

lemma split_slash_nonempty: "split_slash s \<noteq> []"
  by (induction s) (auto split: list.splits)

lemma join_split_slash: "join_slash (split_slash s) = s"
proof (induction s)
  case Nil
  show ?case by simp
next
  case (Cons c cs)
  show ?case
  proof (cases "c = slash")
    case True
    obtain w ws where "split_slash cs = w # ws"
      using split_slash_nonempty [of cs] by (cases "split_slash cs") auto
    with True Cons show ?thesis by simp
  next
    case False
    obtain w ws where sp: "split_slash cs = w # ws"
      using split_slash_nonempty [of cs] by (cases "split_slash cs") auto
    with False Cons show ?thesis by (cases ws) auto
  qed
qed

lemma join_slash_snoc:
  "butlast ps \<noteq> [] \<Longrightarrow> join_slash ps = join_slash (butlast ps) @ slash # last ps"
proof (induction ps rule: join_slash.induct)
  case 1
  then show ?case by simp
next
  case (2 w)
  then show ?case by simp
next
  case (3 w v ws)
  show ?case
  proof (cases ws)
    case Nil
    then show ?thesis by simp
  next
    case (Cons a as)
    with 3 show ?thesis by simp
  qed
qed

lemma length_rstrip_slash: "length (rstrip_slash s) \<le> length s"
  unfolding rstrip_slash_def using length_dropWhile_le [of "\<lambda>c. c = slash" "rev s"] by simp

lemma get_parent_url_shorter:
  "get_parent_url p = ''/'' \<or> length (get_parent_url p) < length p"
proof (cases "rstrip_slash p = [] \<or> length (split_slash (rstrip_slash p)) \<le> 2")
  case True
  then show ?thesis by (auto simp: get_parent_url_def Let_def)
next
  case False
  let ?u = "rstrip_slash p"
  let ?ps = "split_slash ?u"
  from False have len: "2 < length ?ps" by simp
  then have "butlast ?ps \<noteq> []" by (cases ?ps) auto
  then have "join_slash ?ps = join_slash (butlast ?ps) @ slash # last ?ps"
    by (rule join_slash_snoc)
  then have "?u = join_slash (butlast ?ps) @ slash # last ?ps"
    by (simp add: join_split_slash)
  then have "length ?u = length (join_slash (butlast ?ps) @ slash # last ?ps)" by simp
  then have "length (join_slash (butlast ?ps)) < length ?u" by simp
  with length_rstrip_slash [of p] have "length (join_slash (butlast ?ps)) < length p" by simp
  with False show ?thesis by (simp add: get_parent_url_def Let_def)
qed

lemma map_of_parent_url_map:
  "map_of (parent_url_map its) u = Some v \<Longrightarrow> v = get_parent_url u"
  unfolding parent_url_map_def by (induction its) (auto split: if_splits)

lemma parent_lookup:
  "dict_get (parent_url_map its) u (get_parent_url u) = get_parent_url u"
  using map_of_parent_url_map [of its u]
  by (auto simp: dict_get_def split: option.splits)

text \<open>
  The same loop as a total function: a step either arrives at the root or goes to a
  strictly shorter path, which is the measure. \<^verbatim>\<open>_build_breadcrumb_tree\<close> below
  uses this one.
\<close>

function walk_to_root :: "items \<Rightarrow> string \<Rightarrow> string list \<Rightarrow> string list" where
  "walk_to_root breadcrumb_items path path_to_root =
     (if path \<noteq> ''/''
      then let path_to_root = (if has_key breadcrumb_items path
                               then path_to_root @ [path] else path_to_root);
               parent_path = dict_get (parent_url_map breadcrumb_items) path (get_parent_url path)
           in if parent_path = path then path_to_root
              else walk_to_root breadcrumb_items parent_path path_to_root
      else path_to_root)"
  by pat_completeness auto
termination
proof (relation "measure (\<lambda>(its, path, acc). if path = ''/'' then 0 else Suc (length path))")
  show "wf (measure (\<lambda>(its :: items, path :: string, acc :: string list).
              if path = ''/'' then 0 else Suc (length path)))"
    by simp
next
  fix breadcrumb_items :: items and path :: string and path_to_root x xa :: "string list"
  fix xa :: string
  assume "path \<noteq> ''/''"
    and "xa = dict_get (parent_url_map breadcrumb_items) path (get_parent_url path)"
    and "xa \<noteq> path"
  then show "((breadcrumb_items, xa, x), breadcrumb_items, path, path_to_root)
      \<in> measure (\<lambda>(its, path, acc). if path = ''/'' then 0 else Suc (length path))"
    using get_parent_url_shorter [of path] by (auto simp: parent_lookup)
qed

declare walk_to_root.simps [simp del]

section \<open>Grouping the items by parent\<close>

text \<open>
  \<^verbatim>\<open>is_child_map\<close>: for every key other than the root and the current path, whether it
  lies below the current path; the entries in the order of the loop, under the keys
  \<^verbatim>\<open>(url, current_path)\<close>.
\<close>

definition is_child_map :: "items \<Rightarrow> string \<Rightarrow> ((string \<times> string) \<times> bool) list" where
  "is_child_map breadcrumb_items current_path =
     map (\<lambda>(u, _). ((u, current_path), is_child_of u current_path))
       (filter (\<lambda>(u, _). u \<noteq> ''/'' \<and> u \<noteq> current_path) breadcrumb_items)"

text \<open>
  One turn of the grouping loop: the root is skipped, an item below the current path is
  skipped, any other item is appended, as a dictionary without children, to the list of
  its parent url.
\<close>

definition group_item ::
  "(string \<times> string) list \<Rightarrow> ((string \<times> string) \<times> bool) list \<Rightarrow> (string \<times> bool) list
     \<Rightarrow> string \<Rightarrow> string \<times> breadcrumb_item \<Rightarrow> (string \<times> node list) list
     \<Rightarrow> (string \<times> node list) list" where
  "group_item pmap cmap is_current_path_map current_path entry parent_to_children =
     (case entry of (u, item) \<Rightarrow>
        if u = ''/'' then parent_to_children
        else let parent_url = dict_get pmap u (get_parent_url u)
             in if dict_get cmap (u, current_path) False then parent_to_children
                else let children = dict_get parent_to_children parent_url []
                     in AList.update parent_url
                          (children @ [Node (resolve_text (item_text item)) u (item_order item)
                                         (dict_get is_current_path_map u False) []])
                          parent_to_children)"

text \<open>\<^verbatim>\<open>children.sort(key=lambda x: (x["order"], x["url"]))\<close>, a stable sort.\<close>

definition sort_children :: "node list \<Rightarrow> node list" where
  "sort_children cs = sort_key (\<lambda>x. (node_order x, node_url x)) cs"

definition group_items ::
  "items \<Rightarrow> (string \<times> bool) list \<Rightarrow> string \<Rightarrow> (string \<times> node list) list" where
  "group_items breadcrumb_items is_current_path_map current_path =
     map (\<lambda>(parent_url, children). (parent_url, sort_children children))
       (fold (group_item (parent_url_map breadcrumb_items)
                (is_child_map breadcrumb_items current_path) is_current_path_map current_path)
          breadcrumb_items [])"

section \<open>Assembling the tree\<close>

text \<open>
  The index of the first dictionary with the given url, as the inner \<^verbatim>\<open>for\<close> loop
  with its \<^verbatim>\<open>break\<close> finds it.
\<close>

fun find_child :: "string \<Rightarrow> node list \<Rightarrow> nat option" where
  "find_child path [] = None"
| "find_child path (c # cs) =
     (if node_url c = path then Some 0 else map_option Suc (find_child path cs))"

definition set_children :: "node \<Rightarrow> node list \<Rightarrow> node" where
  "set_children n cs = Node (node_text n) (node_url n) (node_order n) (node_is_current_path n) cs"

text \<open>
  The last loop, over the paths after the first of the reversed \<^verbatim>\<open>path_to_root\<close>.
  The source moves a pointer \<^verbatim>\<open>current_level\<close> down the tree and assigns the
  children of the dictionary it finds; here the subtree under the pointer is rebuilt
  and put back in its place. A path that is not among the children of the current level
  leaves the pointer where it is. The lists of \<^verbatim>\<open>parent_to_children\<close> are shared
  between that dictionary and the tree, which does not show: the paths of
  \<^verbatim>\<open>path_to_root\<close> are distinct, so a list is handed to one node only, and a
  dictionary is changed only after the list that holds it has been handed out.
\<close>

fun attach :: "(string \<times> node list) list \<Rightarrow> string \<Rightarrow> string list \<Rightarrow> node \<Rightarrow> node" where
  "attach parent_to_children current_path [] current_level = current_level"
| "attach parent_to_children current_path (path # rest) current_level =
     (case find_child path (node_children current_level) of
        None \<Rightarrow> attach parent_to_children current_path rest current_level
      | Some i \<Rightarrow>
          let child = node_children current_level ! i;
              child = (case map_of parent_to_children path of
                         Some cs \<Rightarrow> if path \<noteq> current_path then set_children child cs else child
                       | None \<Rightarrow> child)
          in set_children current_level
               ((node_children current_level)
                  [i := attach parent_to_children current_path rest child]))"

section \<open>\<^verbatim>\<open>_build_breadcrumb_tree\<close>\<close>

text \<open>The dictionary of an item, with the text resolved and no children.\<close>

definition item_dict :: "breadcrumb_item \<Rightarrow> string \<Rightarrow> bool \<Rightarrow> node" where
  "item_dict item u cur = Node (resolve_text (item_text item)) u (item_order item) cur []"

text \<open>
  The result is \<open>Inr None\<close> for the empty dictionary, \<open>Inr (Some t)\<close> for a tree and
  \<open>Inl KeyError\<close> where a subscript of the source would raise.
\<close>

definition build_breadcrumb_tree ::
  "breadcrumb_ext \<Rightarrow> rule list \<Rightarrow> string \<Rightarrow> error + node option" where
  "build_breadcrumb_tree self rules current_path =
     (let routes = get_routes rules;
          st = materialize self current_path routes
      in if fst st = [] then Inr None
         else
           let st = ensure_root current_path st;
               breadcrumb_items = fst st;
               is_current_path_map = snd st
           in if current_path = ''/'' then
                (case dict_item breadcrumb_items ''/'' of
                   Inl e \<Rightarrow> Inl e
                 | Inr root_item \<Rightarrow> Inr (Some (item_dict root_item ''/'' True)))
              else
                let path_to_root = walk_to_root breadcrumb_items current_path [];
                    path_to_root = (if has_key breadcrumb_items ''/''
                                    then path_to_root @ [''/''] else path_to_root)
                in if path_to_root = [] then
                     (case map_of breadcrumb_items current_path of
                        Some item \<Rightarrow> Inr (Some (item_dict item (item_url item) True))
                      | None \<Rightarrow> Inr None)
                   else
                     let parent_to_children =
                           group_items breadcrumb_items is_current_path_map current_path
                     in (case dict_item breadcrumb_items ''/'' of
                           Inl e \<Rightarrow> Inl e
                         | Inr root_item \<Rightarrow>
                             let result = item_dict root_item ''/''
                                            (dict_get is_current_path_map ''/'' False);
                                 result = (case map_of parent_to_children ''/'' of
                                             Some cs \<Rightarrow> set_children result cs
                                           | None \<Rightarrow> result)
                             in Inr (Some (attach parent_to_children current_path
                                             (drop 1 (rev path_to_root)) result))))"

text \<open>
  \<^verbatim>\<open>get_breadcrumb_tree\<close>, inside an application context: the request path loses its
  trailing slashes, and the empty path is the root.
\<close>

definition get_breadcrumb_tree ::
  "breadcrumb_ext \<Rightarrow> rule list \<Rightarrow> string \<Rightarrow> error + node option" where
  "get_breadcrumb_tree self rules request_path =
     (let current_path = rstrip_slash request_path;
          current_path = (if current_path = [] then ''/'' else current_path)
      in build_breadcrumb_tree self rules current_path)"

section \<open>The decorators\<close>

text \<open>
  A view function: its \<^verbatim>\<open>__name__\<close> and what calling it with arguments returns
  (the result type can hold an error for a view that raises).
\<close>

record ('a, 'r) view =
  view_name :: string
  view_call :: "'a \<Rightarrow> 'r"

text \<open>
  \<^verbatim>\<open>Breadcrumb.__call__(text, order, max_depth)\<close> applied to a view: the metadata
  is stored under the name of the view, and the wrapper, which \<^verbatim>\<open>wraps\<close> gives the
  name of the view, passes its arguments on.
\<close>

definition breadcrumb_call ::
  "breadcrumb_ext \<Rightarrow> label \<Rightarrow> int option \<Rightarrow> int option \<Rightarrow> ('a, 'r) view
     \<Rightarrow> breadcrumb_ext \<times> ('a, 'r) view" where
  "breadcrumb_call self txt ord max_depth f =
     (let endpoint = view_name f;
          self = self\<lparr>breadcrumb_metadata := (breadcrumb_metadata self)
                   (endpoint \<mapsto> \<lparr>md_text = txt, md_order = ord, md_max_depth = max_depth\<rparr>)\<rparr>;
          decorated_function = \<lparr>view_name = view_name f, view_call = (\<lambda>args. view_call f args)\<rparr>
      in (self, decorated_function))"

text \<open>
  The module-level \<^verbatim>\<open>breadcrumb\<close>: without an initialized extension (\<open>None\<close>) the
  dummy decorator only wraps the view; otherwise the extension's decorator is used.
\<close>

definition breadcrumb ::
  "breadcrumb_ext option \<Rightarrow> label \<Rightarrow> int option \<Rightarrow> int option \<Rightarrow> ('a, 'r) view
     \<Rightarrow> breadcrumb_ext option \<times> ('a, 'r) view" where
  "breadcrumb extension txt ord max_depth f =
     (case extension of
        None \<Rightarrow> (None, \<lparr>view_name = view_name f, view_call = (\<lambda>args. view_call f args)\<rparr>)
      | Some ext \<Rightarrow>
          (case breadcrumb_call ext txt ord max_depth f of
             (ext', decorated_function) \<Rightarrow> (Some ext', decorated_function)))"

section \<open>Properties of urls\<close>

text \<open>Two slashes in a row somewhere in the string.\<close>

fun has_double_slash :: "string \<Rightarrow> bool" where
  "has_double_slash [] = False"
| "has_double_slash [c] = False"
| "has_double_slash (c # d # cs) = ((c = slash \<and> d = slash) \<or> has_double_slash (d # cs))"

text \<open>A match of \<^verbatim>\<open><[^>]+>\<close> somewhere in the string.\<close>

fun has_placeholder :: "string \<Rightarrow> bool" where
  "has_placeholder [] = False"
| "has_placeholder (c # cs) =
     ((c = CHR ''<'' \<and> takeWhile (\<lambda>x. x \<noteq> CHR ''>'') cs \<noteq> []
         \<and> dropWhile (\<lambda>x. x \<noteq> CHR ''>'') cs \<noteq> [])
      \<or> has_placeholder cs)"

section \<open>Trees, items and ancestors\<close>

text \<open>All dictionaries of a tree: the root first, then the subtrees of its children.\<close>

fun all_nodes :: "node \<Rightarrow> node list" where
  "all_nodes (Node t u ord cur cs) = Node t u ord cur cs # concat (map all_nodes cs)"

text \<open>
  A url is an item when some rule with \<^verbatim>\<open>GET\<close> among its methods and an endpoint
  that does not start with \<^verbatim>\<open>static\<close> has it as its normalized url: these are the
  keys that the first loop of the build puts into \<^verbatim>\<open>breadcrumb_items\<close>.
\<close>

definition is_item :: "rule list \<Rightarrow> string \<Rightarrow> bool" where
  "is_item rules u =
     list_ex (\<lambda>r. normalize_url (rule_str r) = u \<and> ''GET'' \<in> methods r
                   \<and> \<not> prefix ''static'' (endpoint r)) rules"

text \<open>
  The paths that the walk visits: the path itself, its parent url, and so on up to, and
  without, the root.
\<close>

function ancestor_chain :: "string \<Rightarrow> string list" where
  "ancestor_chain path =
     (if path = ''/'' then [] else path # ancestor_chain (get_parent_url path))"
  by pat_completeness auto
termination
proof (relation "measure (\<lambda>path. if path = ''/'' then 0 else Suc (length path))")
  show "wf (measure (\<lambda>path :: string. if path = ''/'' then 0 else Suc (length path)))"
    by simp
next
  fix path :: string
  assume "path \<noteq> ''/''"
  then show "(get_parent_url path, path)
      \<in> measure (\<lambda>path. if path = ''/'' then 0 else Suc (length path))"
    using get_parent_url_shorter [of path] by auto
qed

declare ancestor_chain.simps [simp del]

text \<open>
  \<^verbatim>\<open>breadcrumb_items\<close> and \<^verbatim>\<open>is_current_path_map\<close> as they are after the root item
  has been made sure of.
\<close>

definition items_of :: "breadcrumb_ext \<Rightarrow> rule list \<Rightarrow> string \<Rightarrow> materialized" where
  "items_of self rules current_path =
     ensure_root current_path (materialize self current_path (get_routes rules))"

section \<open>Example catalogs\<close>

text \<open>
  A rule as \<^verbatim>\<open>app.route\<close> registers it for a view, and an extension whose decorator
  was applied with static texts.
\<close>

definition view_rule :: "string \<Rightarrow> string \<Rightarrow> rule" where
  "view_rule pattern name =
     \<lparr>rule_str = pattern, endpoint = name, methods = {''GET'', ''HEAD'', ''OPTIONS''}\<rparr>"

definition registered :: "(string \<times> string \<times> int option) list \<Rightarrow> breadcrumb_ext" where
  "registered entries =
     \<lparr>breadcrumb_metadata =
        map_of (map (\<lambda>(name, txt, ord).
                       (name, \<lparr>md_text = Static txt, md_order = ord, md_max_depth = None\<rparr>))
                  entries)\<rparr>"

section \<open>Notions for the proofs\<close>

text \<open>A route that the first loop does not skip.\<close>

definition accepted :: "route \<Rightarrow> bool" where
  "accepted r = (case r of (u, ep, ms) \<Rightarrow> ''GET'' \<in> ms \<and> \<not> prefix ''static'' ep)"

text \<open>
  What holds of the two dictionaries all along: the keys are distinct, an item sits under
  its own url, and the flag of a key says whether it is the current path.
\<close>

definition mat_ok :: "string \<Rightarrow> materialized \<Rightarrow> bool" where
  "mat_ok cp st \<longleftrightarrow>
     distinct (map fst (fst st))
     \<and> (\<forall>u it. map_of (fst st) u = Some it \<longrightarrow> item_url it = u)
     \<and> (\<forall>u. has_key (fst st) u \<longrightarrow> map_of (snd st) u = Some (u = cp))"

text \<open>
  The entries that one turn of the grouping loop appends to the list of the parent url
  \<open>q\<close>, and the dictionary it appends.
\<close>

definition group_sel ::
  "(string \<times> string) list \<Rightarrow> ((string \<times> string) \<times> bool) list \<Rightarrow> string \<Rightarrow> string
     \<Rightarrow> string \<times> breadcrumb_item \<Rightarrow> bool" where
  "group_sel pm cm cp q entry =
     (case entry of (u, it) \<Rightarrow>
        u \<noteq> ''/'' \<and> \<not> dict_get cm (u, cp) False \<and> dict_get pm u (get_parent_url u) = q)"

definition group_node :: "(string \<times> bool) list \<Rightarrow> string \<times> breadcrumb_item \<Rightarrow> node" where
  "group_node im entry =
     (case entry of (u, it) \<Rightarrow>
        Node (resolve_text (item_text it)) u (item_order it) (dict_get im u False) [])"

text \<open>A url that the grouping loop does not leave out.\<close>

definition kept :: "string \<Rightarrow> string \<Rightarrow> bool" where
  "kept cp u \<longleftrightarrow> u \<noteq> ''/'' \<and> \<not> (u \<noteq> cp \<and> is_child_of u cp)"

text \<open>The children under a parent url, before they are sorted.\<close>

definition group_of ::
  "items \<Rightarrow> (string \<times> bool) list \<Rightarrow> string \<Rightarrow> string \<Rightarrow> node list" where
  "group_of its im cp q =
     map (group_node im) (filter (\<lambda>x. kept cp (fst x) \<and> get_parent_url (fst x) = q) its)"

text \<open>The fields of a dictionary other than its children.\<close>

definition hdr :: "node \<Rightarrow> string \<times> string \<times> int \<times> bool" where
  "hdr n = (node_text n, node_url n, node_order n, node_is_current_path n)"

definition leaves :: "node list \<Rightarrow> bool" where
  "leaves cs \<longleftrightarrow> (\<forall>c\<in>set cs. node_children c = [])"

text \<open>The found child with the children it is given, as in the body of \<open>attach\<close>.\<close>

definition next_child :: "(string \<times> node list) list \<Rightarrow> string \<Rightarrow> string \<Rightarrow> node \<Rightarrow> node" where
  "next_child ptc cp path child =
     (case map_of ptc path of
        Some cs \<Rightarrow> if path \<noteq> cp then set_children child cs else child
      | None \<Rightarrow> child)"

definition sub_nodes :: "node \<Rightarrow> node list" where
  "sub_nodes n = concat (map all_nodes (node_children n))"

definition ptc_leaves :: "(string \<times> node list) list \<Rightarrow> bool" where
  "ptc_leaves ptc \<longleftrightarrow> (\<forall>q cs. map_of ptc q = Some cs \<longrightarrow> leaves cs)"

text \<open>
  A node below the root of an assembled tree is a leaf or a node on the path that got
  the list of its url as children, and its fields are those of a child of the start
  level or of a dictionary in one of the lists that were handed out.
\<close>

definition grown :: "(string \<times> node list) list \<Rightarrow> string \<Rightarrow> string list \<Rightarrow> node \<Rightarrow> bool" where
  "grown ptc cp ps m \<longleftrightarrow>
     node_children m = []
     \<or> (node_url m \<in> set ps \<and> node_url m \<noteq> cp
        \<and> (\<exists>cs. map_of ptc (node_url m) = Some cs \<and> map hdr (node_children m) = map hdr cs))"

definition origin ::
  "(string \<times> node list) list \<Rightarrow> string \<Rightarrow> string list \<Rightarrow> node \<Rightarrow> node \<Rightarrow> bool" where
  "origin ptc cp ps n m \<longleftrightarrow>
     (\<exists>c\<in>set (node_children n). hdr m = hdr c)
     \<or> (\<exists>q\<in>set ps. q \<noteq> cp \<and> (\<exists>cs. map_of ptc q = Some cs \<and> (\<exists>c\<in>set cs. hdr m = hdr c)))"

text \<open>The root dictionary with the top-level children, where the last loop starts.\<close>

definition root_level :: "items \<Rightarrow> (string \<times> bool) list \<Rightarrow> string \<Rightarrow> breadcrumb_item \<Rightarrow> node" where
  "root_level its im cp it =
     (case map_of (group_items its im cp) ''/'' of
        Some cs \<Rightarrow> set_children (item_dict it ''/'' (dict_get im ''/'' False)) cs
      | None \<Rightarrow> item_dict it ''/'' (dict_get im ''/'' False))"

text \<open>
  Lists of children as the grouping makes them: leaves with distinct urls, each under
  the parent url of its own url.
\<close>

definition ptc_wf :: "(string \<times> node list) list \<Rightarrow> bool" where
  "ptc_wf ptc \<longleftrightarrow>
     (\<forall>q cs. map_of ptc q = Some cs \<longrightarrow>
        leaves cs \<and> distinct (map node_url cs)
        \<and> (\<forall>c\<in>set cs. get_parent_url (node_url c) = q))"

text \<open>A list of paths in which each is the parent url of the next, starting below \<open>q\<close>.\<close>

fun descending :: "string \<Rightarrow> string list \<Rightarrow> bool" where
  "descending q [] = True"
| "descending q (p # ps) = (get_parent_url p = q \<and> descending p ps)"

section \<open>Normalization\<close>

lemma set_strip_variables: "set (strip_variables s) \<subseteq> set s"
proof (induction s rule: strip_variables.induct)
  case 1
  show ?case by simp
next
  case (2 c cs)
  have "set (tl (dropWhile (\<lambda>x. x \<noteq> CHR ''>'') cs)) \<subseteq> set cs"
    by (metis list.set_sel(2) set_dropWhileD subsetI tl_Nil)
  with 2 show ?case by (auto split: if_splits)
qed

lemma no_gt_takeWhile: "CHR ''>'' \<notin> set s \<Longrightarrow> dropWhile (\<lambda>x. x \<noteq> CHR ''>'') s = []"
  by (induction s) auto

lemma dropWhile_gt_nonempty: "dropWhile (\<lambda>x. x \<noteq> CHR ''>'') s \<noteq> [] \<Longrightarrow> CHR ''>'' \<in> set s"
  using no_gt_takeWhile by blast

lemma open_unmatched:
  "takeWhile (\<lambda>x. x \<noteq> CHR ''>'') s = [] \<or> dropWhile (\<lambda>x. x \<noteq> CHR ''>'') s = []
    \<longleftrightarrow> s = [] \<or> hd s = CHR ''>'' \<or> CHR ''>'' \<notin> set s"
  by (cases s) (auto simp: no_gt_takeWhile dest: dropWhile_gt_nonempty)

lemma hd_strip_variables_gt:
  "s \<noteq> [] \<Longrightarrow> hd s = CHR ''>'' \<Longrightarrow> strip_variables s \<noteq> [] \<and> hd (strip_variables s) = CHR ''>''"
  by (cases s) auto

lemma strip_variables_no_placeholder: "\<not> has_placeholder (strip_variables s)"
proof (induction s rule: strip_variables.induct)
  case 1
  show ?case by simp
next
  case (2 c cs)
  show ?case
  proof (cases "c = CHR ''<'' \<and> takeWhile (\<lambda>x. x \<noteq> CHR ''>'') cs \<noteq> []
         \<and> dropWhile (\<lambda>x. x \<noteq> CHR ''>'') cs \<noteq> []")
    case True
    with 2 show ?thesis by simp
  next
    case False
    then have rec: "strip_variables (c # cs) = c # strip_variables cs" by auto
    from False 2 have ih: "\<not> has_placeholder (strip_variables cs)" by auto
    have "c \<noteq> CHR ''<'' \<or> strip_variables cs = [] \<or> hd (strip_variables cs) = CHR ''>''
        \<or> CHR ''>'' \<notin> set (strip_variables cs)"
    proof (cases "c = CHR ''<''")
      case False
      then show ?thesis by simp
    next
      case True
      with \<open>\<not> (c = CHR ''<'' \<and> _ \<and> _)\<close>
      have "cs = [] \<or> hd cs = CHR ''>'' \<or> CHR ''>'' \<notin> set cs"
        using open_unmatched [of cs] by blast
      then show ?thesis
      proof (elim disjE)
        assume "cs = []"
        then show ?thesis by simp
      next
        assume "hd cs = CHR ''>''"
        then show ?thesis using hd_strip_variables_gt [of cs] by (cases "cs = []") auto
      next
        assume "CHR ''>'' \<notin> set cs"
        then show ?thesis using set_strip_variables [of cs] by auto
      qed
    qed
    then have "\<not> (c = CHR ''<'' \<and> takeWhile (\<lambda>x. x \<noteq> CHR ''>'') (strip_variables cs) \<noteq> []
         \<and> dropWhile (\<lambda>x. x \<noteq> CHR ''>'') (strip_variables cs) \<noteq> [])"
      using open_unmatched [of "strip_variables cs"] by blast
    with ih rec show ?thesis by simp
  qed
qed

lemma set_collapse_slashes: "set (collapse_slashes s) \<subseteq> set s"
  by (induction s rule: collapse_slashes.induct) auto

lemma hd_collapse_slashes: "s \<noteq> [] \<Longrightarrow> collapse_slashes s \<noteq> [] \<and> hd (collapse_slashes s) = hd s"
  by (induction s rule: collapse_slashes.induct) auto

lemma collapse_slashes_no_placeholder:
  "\<not> has_placeholder s \<Longrightarrow> \<not> has_placeholder (collapse_slashes s)"
proof (induction s rule: collapse_slashes.induct)
  case 1
  then show ?case by simp
next
  case (2 c)
  then show ?case by simp
next
  case (3 c d cs)
  show ?case
  proof (cases "c = slash \<and> d = slash")
    case True
    with 3 show ?thesis by auto
  next
    case False
    from 3 False have ih: "\<not> has_placeholder (collapse_slashes (d # cs))" by auto
    from 3(3) have "c \<noteq> CHR ''<'' \<or> d = CHR ''>'' \<or> CHR ''>'' \<notin> set (d # cs)"
      using open_unmatched [of "d # cs"] by auto
    then have "c \<noteq> CHR ''<'' \<or> hd (collapse_slashes (d # cs)) = CHR ''>''
        \<or> CHR ''>'' \<notin> set (collapse_slashes (d # cs))"
      using hd_collapse_slashes [of "d # cs"] set_collapse_slashes [of "d # cs"] by auto
    then have "\<not> (c = CHR ''<'' \<and> takeWhile (\<lambda>x. x \<noteq> CHR ''>'') (collapse_slashes (d # cs)) \<noteq> []
         \<and> dropWhile (\<lambda>x. x \<noteq> CHR ''>'') (collapse_slashes (d # cs)) \<noteq> [])"
      using open_unmatched [of "collapse_slashes (d # cs)"] by blast
    moreover from False
    have "collapse_slashes (c # d # cs) = c # collapse_slashes (d # cs)" by auto
    ultimately show ?thesis using ih by simp
  qed
qed

lemma butlast_no_placeholder: "\<not> has_placeholder s \<Longrightarrow> \<not> has_placeholder (butlast s)"
proof (induction s)
  case Nil
  then show ?case by simp
next
  case (Cons c cs)
  show ?case
  proof (cases "cs = []")
    case True
    then show ?thesis by simp
  next
    case False
    from Cons have ih: "\<not> has_placeholder (butlast cs)" by auto
    from Cons.prems have "c \<noteq> CHR ''<'' \<or> hd cs = CHR ''>'' \<or> CHR ''>'' \<notin> set cs"
      using open_unmatched [of cs] False by auto
    then have "c \<noteq> CHR ''<'' \<or> butlast cs = [] \<or> hd (butlast cs) = CHR ''>''
        \<or> CHR ''>'' \<notin> set (butlast cs)"
      using False by (cases cs) (auto dest: in_set_butlastD)
    then have "\<not> (c = CHR ''<'' \<and> takeWhile (\<lambda>x. x \<noteq> CHR ''>'') (butlast cs) \<noteq> []
         \<and> dropWhile (\<lambda>x. x \<noteq> CHR ''>'') (butlast cs) \<noteq> [])"
      using open_unmatched [of "butlast cs"] by blast
    with ih False show ?thesis by simp
  qed
qed

lemma collapse_slashes_no_double: "\<not> has_double_slash (collapse_slashes s)"
proof (induction s rule: collapse_slashes.induct)
  case 1
  show ?case by simp
next
  case (2 c)
  show ?case by simp
next
  case (3 c d cs)
  show ?case
  proof (cases "c = slash \<and> d = slash")
    case True
    with 3 show ?thesis by simp
  next
    case False
    obtain e es where e: "collapse_slashes (d # cs) = e # es" "e = d"
      using hd_collapse_slashes [of "d # cs"] by (cases "collapse_slashes (d # cs)") auto
    with 3 False show ?thesis by auto
  qed
qed

lemma butlast_no_double: "\<not> has_double_slash s \<Longrightarrow> \<not> has_double_slash (butlast s)"
  by (induction s rule: has_double_slash.induct) (auto split: if_splits)

lemma no_double_last_butlast:
  "\<not> has_double_slash s \<Longrightarrow> s \<noteq> [] \<Longrightarrow> last s = slash \<Longrightarrow> butlast s \<noteq> []
    \<Longrightarrow> last (butlast s) \<noteq> slash"
  by (induction s rule: has_double_slash.induct) (auto split: if_splits)

text \<open>
  C8. Normalizing \<^verbatim>\<open>/a//b/\<close> and \<^verbatim>\<open>/a/b\<close> gives \<^verbatim>\<open>/a/b\<close>, and variable parts
  are taken out. The normalized url of any rule string holds no variable placeholder
  and no two slashes in a row, and it does not end with a slash unless it is the root
  (or empty, for a rule string that holds nothing but placeholders). The function is
  total: every string has a normalized url.
\<close>

theorem normalize_url_canonical:
  "normalize_url ''/a//b/'' = ''/a/b'' \<and> normalize_url ''/a/b'' = ''/a/b''
   \<and> normalize_url ''/user/<int:id>/posts/<slug>/'' = ''/user/posts''
   \<and> \<not> has_placeholder (normalize_url s)
   \<and> \<not> has_double_slash (normalize_url s)
   \<and> (normalize_url s = ''/'' \<or> normalize_url s = [] \<or> last (normalize_url s) \<noteq> slash)"
proof -
  let ?u = "collapse_slashes (strip_variables s)"
  have nd: "\<not> has_double_slash ?u" by (rule collapse_slashes_no_double)
  have np: "\<not> has_placeholder ?u"
    by (rule collapse_slashes_no_placeholder) (rule strip_variables_no_placeholder)
  have 1: "normalize_url ''/a//b/'' = ''/a/b''" by (simp add: normalize_url_def)
  have 2: "normalize_url ''/a/b'' = ''/a/b''" by (simp add: normalize_url_def)
  have 3: "normalize_url ''/user/<int:id>/posts/<slug>/'' = ''/user/posts''"
    by (simp add: normalize_url_def)
  have 4: "\<not> has_placeholder (normalize_url s)"
    using np butlast_no_placeholder [OF np] by (simp add: normalize_url_def Let_def)
  have 5: "\<not> has_double_slash (normalize_url s)"
    using nd butlast_no_double [OF nd] by (simp add: normalize_url_def Let_def)
  have 6: "normalize_url s = ''/'' \<or> normalize_url s = [] \<or> last (normalize_url s) \<noteq> slash"
    using no_double_last_butlast [OF nd] by (auto simp: normalize_url_def Let_def)
  from 1 2 3 4 5 6 show ?thesis by blast
qed

text \<open>The theorem at the rule string \<^verbatim>\<open>//x/<id>//\<close>.\<close>

theorem normalize_url_canonical_witness:
  "normalize_url ''//x/<id>//'' = ''/x''
   \<and> \<not> has_placeholder ''/x'' \<and> \<not> has_double_slash ''/x'' \<and> last ''/x'' \<noteq> slash"
proof -
  have "normalize_url ''//x/<id>//'' = ''/x''" by (simp add: normalize_url_def)
  then show ?thesis using normalize_url_canonical [of "''//x/<id>//''"] by simp
qed

section \<open>Termination of the walk\<close>

lemma get_parent_url_root: "get_parent_url ''/'' = ''/''"
  by (simp add: get_parent_url_def rstrip_slash_def)

lemma get_parent_url_fixed: "get_parent_url p = p \<longleftrightarrow> p = ''/''"
  using get_parent_url_shorter [of p] get_parent_url_root by auto

lemma split_slash_no_slash: "slash \<notin> set seg \<Longrightarrow> split_slash seg = [seg]"
  by (induction seg) auto

lemma split_slash_append:
  "slash \<notin> set seg \<Longrightarrow> split_slash (p @ slash # seg) = split_slash p @ [seg]"
proof (induction p)
  case Nil
  then show ?case by (simp add: split_slash_no_slash)
next
  case (Cons c cs)
  then show ?case by (cases "split_slash cs") (auto simp: split_slash_nonempty)
qed

lemma length_split_slash: "length (split_slash s) = Suc (length (filter (\<lambda>c. c = slash) s))"
proof (induction s)
  case Nil
  show ?case by simp
next
  case (Cons c cs)
  then show ?case by (cases "split_slash cs") auto
qed

lemma rstrip_slash_id: "s \<noteq> [] \<Longrightarrow> last s \<noteq> slash \<Longrightarrow> rstrip_slash s = s"
  unfolding rstrip_slash_def by (cases s rule: rev_cases) auto

lemma get_parent_url_segment:
  assumes "seg \<noteq> []" and "slash \<notin> set seg"
  shows "get_parent_url (p @ slash # seg) = (if slash \<in> set p then p else ''/'')"
proof -
  from assms have "last (p @ slash # seg) \<noteq> slash" by (cases seg rule: rev_cases) auto
  then have rs: "rstrip_slash (p @ slash # seg) = p @ slash # seg"
    by (intro rstrip_slash_id) simp_all
  have sp: "split_slash (p @ slash # seg) = split_slash p @ [seg]"
    using assms(2) by (rule split_slash_append)
  have len: "length (split_slash p) \<le> 1 \<longleftrightarrow> slash \<notin> set p"
    by (auto simp: length_split_slash filter_empty_conv)
  show ?thesis
  proof (cases "slash \<in> set p")
    case True
    with len have "\<not> length (split_slash p @ [seg]) \<le> 2" by simp
    with rs sp True show ?thesis
      by (simp add: get_parent_url_def Let_def join_split_slash)
  next
    case False
    with len have "length (split_slash p @ [seg]) \<le> 2" by simp
    with rs sp False show ?thesis by (simp add: get_parent_url_def Let_def)
  qed
qed

lemma ancestor_walk_total:
  "ancestor_walk its path acc = Some (walk_to_root its path acc)"
proof (induction its path acc rule: walk_to_root.induct)
  case (1 its path acc)
  show ?case
    apply (subst ancestor_walk.simps)
    apply (subst walk_to_root.simps)
    using 1 by (simp add: Let_def)
qed

text \<open>
  C9. The loop that walks from the current path to the root returns for every set of
  items, every path and every start of the list: a step of \<^verbatim>\<open>_get_parent_url\<close>
  gives the root or a strictly shorter path, and the parent of a path is that path only
  at the root. The parent of a path that ends with a segment is what stands before the
  last slash, and the root when nothing with a slash stands there.
\<close>

theorem ancestor_walk_terminates:
  "(\<exists>path_to_root. ancestor_walk breadcrumb_items path acc = Some path_to_root)
   \<and> (get_parent_url path = ''/'' \<or> length (get_parent_url path) < length path)
   \<and> (get_parent_url path = path \<longleftrightarrow> path = ''/'')
   \<and> (seg \<noteq> [] \<and> slash \<notin> set seg \<longrightarrow>
        get_parent_url (p @ slash # seg) = (if slash \<in> set p then p else ''/''))"
  using ancestor_walk_total [of breadcrumb_items path acc] get_parent_url_shorter [of path]
    get_parent_url_fixed [of path] get_parent_url_segment [of seg p]
  by simp

text \<open>The walk from \<^verbatim>\<open>/a/b/c\<close> over an empty set of items.\<close>

theorem ancestor_walk_terminates_witness:
  "ancestor_walk [] ''/a/b/c'' [] = Some []
   \<and> get_parent_url ''/a/b/c'' = ''/a/b'' \<and> get_parent_url ''/a'' = ''/''"
proof -
  have "ancestor_walk [] ''/a/b/c'' [] = Some []" by code_simp
  then show ?thesis
    using ancestor_walk_terminates [of "[]" "''/a/b/c''" "[]" "''c''" "''/a/b''"]
      ancestor_walk_terminates [of "[]" "''/a''" "[]" "''a''" "[]"]
    by simp
qed

section \<open>The decorated view\<close>

text \<open>
  C10. The function that \<^verbatim>\<open>Breadcrumb.__call__\<close> returns for a view, and the one
  that the module-level \<^verbatim>\<open>breadcrumb\<close> returns with or without an initialized
  extension, give on all arguments what the view gives. The extension's decorator stores
  text, order and max_depth under the name of the view and leaves every other entry;
  the dummy decorator stores nothing.
\<close>

theorem decorator_keeps_view:
  "view_call (snd (breadcrumb_call self txt ord max_depth f)) args = view_call f args
   \<and> view_call (snd (breadcrumb None txt ord max_depth f)) args = view_call f args
   \<and> view_call (snd (breadcrumb (Some self) txt ord max_depth f)) args = view_call f args
   \<and> breadcrumb_metadata (fst (breadcrumb_call self txt ord max_depth f))
       = (breadcrumb_metadata self)
           (view_name f \<mapsto> \<lparr>md_text = txt, md_order = ord, md_max_depth = max_depth\<rparr>)
   \<and> fst (breadcrumb None txt ord max_depth f) = None"
  by (simp add: breadcrumb_call_def breadcrumb_def Let_def)

section \<open>The items of a catalog\<close>

lemma ancestor_chain_root [simp]: "ancestor_chain ''/'' = []"
  by (subst ancestor_chain.simps) simp

lemma ancestor_chain_step:
  "path \<noteq> ''/'' \<Longrightarrow> ancestor_chain path = path # ancestor_chain (get_parent_url path)"
  by (subst ancestor_chain.simps) simp

lemma walk_to_root_root [simp]: "walk_to_root its ''/'' acc = acc"
  by (subst walk_to_root.simps) simp

lemma has_key_update: "has_key (AList.update k v d) k' \<longleftrightarrow> k' = k \<or> has_key d k'"
  by (simp add: has_key_def update_conv')

lemma has_key_iff: "has_key d k \<longleftrightarrow> k \<in> fst ` set d"
  by (simp add: has_key_def map_of_eq_None_iff)

lemma add_route_keys:
  "has_key (fst (add_route self cp r st)) k
     \<longleftrightarrow> (accepted r \<and> k = fst r) \<or> has_key (fst st) k"
  by (cases r) (auto simp: add_route_def accepted_def Let_def has_key_update)

lemma fold_add_route_keys:
  "has_key (fst (fold (add_route self cp) rs st)) k
     \<longleftrightarrow> (\<exists>r\<in>set rs. accepted r \<and> k = fst r) \<or> has_key (fst st) k"
  by (induction rs arbitrary: st) (auto simp: add_route_keys)

lemma materialize_keys:
  "has_key (fst (materialize self cp (get_routes rules))) k \<longleftrightarrow> is_item rules k"
  unfolding materialize_def fold_add_route_keys
  by (auto simp: get_routes_def accepted_def is_item_def list_ex_iff has_key_def)

lemma materialize_empty:
  "fst (materialize self cp (get_routes rules)) = [] \<longleftrightarrow> \<not> (\<exists>u. is_item rules u)"
proof -
  have "fst (materialize self cp (get_routes rules)) = []
      \<longleftrightarrow> (\<forall>k. \<not> has_key (fst (materialize self cp (get_routes rules))) k)"
    by (cases "fst (materialize self cp (get_routes rules))") (auto simp: has_key_iff)
  then show ?thesis by (simp add: materialize_keys)
qed

lemma items_of_keys:
  "has_key (fst (items_of self rules cp)) k \<longleftrightarrow> k = ''/'' \<or> is_item rules k"
  by (auto simp: items_of_def ensure_root_def Let_def has_key_update materialize_keys)

lemma mat_ok_update:
  assumes "mat_ok cp st"
  shows "mat_ok cp (AList.update u (new_item t u ord (u = cp)) (fst st),
                    AList.update u (u = cp) (snd st))"
  using assms
  by (auto simp: mat_ok_def distinct_update update_conv' has_key_update new_item_def
      split: if_splits)

lemma mat_ok_add_route: "mat_ok cp st \<Longrightarrow> mat_ok cp (add_route self cp r st)"
  by (cases r) (auto simp: add_route_def Let_def intro: mat_ok_update)

lemma mat_ok_fold: "mat_ok cp st \<Longrightarrow> mat_ok cp (fold (add_route self cp) rs st)"
  by (induction rs arbitrary: st) (simp_all add: mat_ok_add_route)

lemma mat_ok_items_of: "mat_ok cp (items_of self rules cp)"
proof -
  have "mat_ok cp ([], [])" by (simp add: mat_ok_def has_key_def)
  then have m: "mat_ok cp (materialize self cp (get_routes rules))"
    unfolding materialize_def by (rule mat_ok_fold)
  show ?thesis
  proof (cases "has_key (fst (materialize self cp (get_routes rules))) ''/''")
    case True
    with m show ?thesis by (simp add: items_of_def ensure_root_def)
  next
    case False
    have "mat_ok cp (AList.update ''/'' (new_item (Static ''Home'') ''/'' (Some 0) (''/'' = cp))
                       (fst (materialize self cp (get_routes rules))),
                     AList.update ''/'' (''/'' = cp) (snd (materialize self cp (get_routes rules))))"
      using m by (rule mat_ok_update)
    with False show ?thesis by (auto simp: items_of_def ensure_root_def Let_def eq_commute)
  qed
qed

section \<open>The groups of children\<close>

lemma dict_get_update:
  "dict_get (AList.update k v d) k' dflt = (if k' = k then v else dict_get d k' dflt)"
  by (simp add: dict_get_def update_conv')

lemma fold_group_item:
  "map_of (fold (group_item pm cm im cp) xs acc) q =
     (if filter (group_sel pm cm cp q) xs = [] then map_of acc q
      else Some (dict_get acc q [] @ map (group_node im) (filter (group_sel pm cm cp q) xs)))"
proof (induction xs arbitrary: acc)
  case Nil
  show ?case by simp
next
  case (Cons x xs)
  obtain u it where x: "x = (u, it)" by (cases x)
  show ?case
  proof (cases "group_sel pm cm cp q x")
    case True
    then have step: "group_item pm cm im cp x acc
        = AList.update q (dict_get acc q [] @ [group_node im x]) acc"
      by (auto simp: x group_sel_def group_item_def group_node_def Let_def)
    show ?thesis
      using True by (simp add: Cons.IH step update_conv' dict_get_update)
  next
    case False
    have "map_of (group_item pm cm im cp x acc) q = map_of acc q"
      using False by (auto simp: x group_sel_def group_item_def Let_def update_conv')
    moreover have "dict_get (group_item pm cm im cp x acc) q [] = dict_get acc q []"
      using False by (auto simp: x group_sel_def group_item_def Let_def dict_get_update)
    ultimately show ?thesis using False by (simp add: Cons.IH)
  qed
qed

lemma is_child_map_lookup:
  "dict_get (is_child_map its cp) (u, cp) False
     \<longleftrightarrow> has_key its u \<and> u \<noteq> ''/'' \<and> u \<noteq> cp \<and> is_child_of u cp"
proof -
  have "map_of (is_child_map its cp) (u, cp)
      = (if has_key its u \<and> u \<noteq> ''/'' \<and> u \<noteq> cp then Some (is_child_of u cp) else None)"
    unfolding is_child_map_def by (induction its) (auto simp: has_key_def)
  then show ?thesis by (auto simp: dict_get_def)
qed

lemma group_sel_items:
  "x \<in> set its \<Longrightarrow>
   group_sel (parent_url_map its) (is_child_map its cp) cp q x
     \<longleftrightarrow> kept cp (fst x) \<and> get_parent_url (fst x) = q"
  by (cases x) (auto simp: group_sel_def kept_def parent_lookup is_child_map_lookup has_key_iff
      intro: rev_image_eqI)

lemma map_of_group_items:
  "map_of (group_items its im cp) q =
     (if group_of its im cp q = [] then None else Some (sort_children (group_of its im cp q)))"
proof -
  have f: "filter (group_sel (parent_url_map its) (is_child_map its cp) cp q) its
      = filter (\<lambda>x. kept cp (fst x) \<and> get_parent_url (fst x) = q) its"
    by (rule filter_cong) (simp_all add: group_sel_items)
  have "map_of (group_items its im cp) q
      = map_option sort_children
          (map_of (fold (group_item (parent_url_map its) (is_child_map its cp) im cp) its []) q)"
    unfolding group_items_def by (simp add: map_of_map)
  then show ?thesis
    by (simp add: fold_group_item f group_of_def dict_get_def)
qed

lemma node_url_group_node: "node_url (group_node im x) = fst x"
  by (cases x) (simp add: group_node_def)

lemma group_of_urls:
  "map node_url (group_of its im cp q)
     = filter (\<lambda>u. kept cp u \<and> get_parent_url u = q) (map fst its)"
  by (simp add: group_of_def filter_map o_def node_url_group_node)

lemma group_of_leaves: "c \<in> set (group_of its im cp q) \<Longrightarrow> node_children c = []"
  by (auto simp: group_of_def group_node_def)

lemma group_of_flag:
  "c \<in> set (group_of its im cp q) \<Longrightarrow> node_is_current_path c = dict_get im (node_url c) False"
  by (auto simp: group_of_def group_node_def)

text \<open>What is known of a list of children that \<open>group_items\<close> holds.\<close>

lemma group_items_Some:
  assumes "map_of (group_items its im cp) q = Some cs"
  shows "set cs = set (group_of its im cp q)" and "cs \<noteq> []"
    and "sorted (map (\<lambda>c. (node_order c, node_url c)) cs)"
    and "distinct (map fst its) \<Longrightarrow> distinct (map node_url cs)"
proof -
  from assms have cs: "cs = sort_children (group_of its im cp q)" and ne: "group_of its im cp q \<noteq> []"
    by (auto simp: map_of_group_items split: if_splits)
  show "set cs = set (group_of its im cp q)" by (simp add: cs sort_children_def)
  from ne show "cs \<noteq> []"
    by (metis cs length_0_conv length_sort sort_children_def)
  show "sorted (map (\<lambda>c. (node_order c, node_url c)) cs)"
    by (simp add: cs sort_children_def)
  assume d: "distinct (map fst its)"
  have "distinct (map node_url (group_of its im cp q))"
    unfolding group_of_urls using d by (rule distinct_filter)
  then have "distinct (group_of its im cp q) \<and> inj_on node_url (set (group_of its im cp q))"
    by (simp add: distinct_map)
  then show "distinct (map node_url cs)"
    by (simp add: cs sort_children_def distinct_map)
qed

lemma group_items_member:
  assumes "map_of (group_items its im cp) q = Some cs" and "c \<in> set cs"
  shows "node_children c = []" and "has_key its (node_url c)" and "kept cp (node_url c)"
    and "get_parent_url (node_url c) = q"
    and "node_is_current_path c = dict_get im (node_url c) False"
proof -
  from assms have c: "c \<in> set (group_of its im cp q)"
    using group_items_Some(1) by blast
  then show "node_children c = []" by (rule group_of_leaves)
  from c show "node_is_current_path c = dict_get im (node_url c) False" by (rule group_of_flag)
  from c have "node_url c \<in> set (map node_url (group_of its im cp q))" by simp
  then have "node_url c \<in> set (filter (\<lambda>u. kept cp u \<and> get_parent_url u = q) (map fst its))"
    by (simp only: group_of_urls)
  then show "has_key its (node_url c)" and "kept cp (node_url c)"
    and "get_parent_url (node_url c) = q"
    by (auto simp: has_key_iff)
qed

lemma group_items_complete:
  assumes "has_key its u" and "kept cp u"
  shows "\<exists>cs. map_of (group_items its im cp) (get_parent_url u) = Some cs
              \<and> u \<in> node_url ` set cs"
proof -
  from assms have "u \<in> set (filter (\<lambda>v. kept cp v \<and> get_parent_url v = get_parent_url u)
                              (map fst its))"
    by (auto simp: has_key_iff)
  then have u: "u \<in> set (map node_url (group_of its im cp (get_parent_url u)))"
    by (simp only: group_of_urls)
  then have "group_of its im cp (get_parent_url u) \<noteq> []" by auto
  then have "map_of (group_items its im cp) (get_parent_url u)
      = Some (sort_children (group_of its im cp (get_parent_url u)))"
    by (simp add: map_of_group_items)
  moreover from u have "u \<in> node_url ` set (sort_children (group_of its im cp (get_parent_url u)))"
    by (simp add: sort_children_def)
  ultimately show ?thesis by blast
qed

section \<open>The nodes of an assembled tree\<close>

lemma hdr_set_children [simp]: "hdr (set_children n cs) = hdr n"
  by (simp add: hdr_def set_children_def)

lemma node_children_set_children [simp]: "node_children (set_children n cs) = cs"
  by (simp add: set_children_def)

lemma node_url_set_children [simp]: "node_url (set_children n cs) = node_url n"
  by (simp add: set_children_def)

lemma hdr_url: "hdr m = hdr c \<Longrightarrow> node_url m = node_url c"
  by (simp add: hdr_def)

lemma all_nodes_unfold: "all_nodes n = n # sub_nodes n"
  by (cases n) (simp add: sub_nodes_def)

lemma concat_all_nodes_leaves: "leaves cs \<Longrightarrow> concat (map all_nodes cs) = cs"
  by (induction cs) (auto simp: leaves_def all_nodes_unfold sub_nodes_def)

lemma leaves_take_drop: "leaves cs \<Longrightarrow> leaves (take i cs) \<and> leaves (drop i cs)"
  by (auto simp: leaves_def dest: in_set_takeD in_set_dropD)

lemma find_child_Some:
  "find_child p cs = Some i \<Longrightarrow> i < length cs \<and> node_url (cs ! i) = p"
  by (induction cs arbitrary: i) (auto split: if_splits)

lemma find_child_None: "find_child p cs = None \<longleftrightarrow> p \<notin> node_url ` set cs"
  by (induction cs) auto

lemma attach_Cons_found:
  "find_child p (node_children n) = Some i \<Longrightarrow>
   attach ptc cp (p # rest) n
     = set_children n ((node_children n)
         [i := attach ptc cp rest (next_child ptc cp p (node_children n ! i))])"
  by (simp add: next_child_def Let_def)

lemma attach_Cons_missing:
  "find_child p (node_children n) = None \<Longrightarrow> attach ptc cp (p # rest) n = attach ptc cp rest n"
  by simp

declare attach.simps(2) [simp del]

lemma hdr_next_child [simp]: "hdr (next_child ptc cp p c) = hdr c"
  by (simp add: next_child_def split: option.splits)

lemma hdr_attach: "hdr (attach ptc cp ps n) = hdr n"
proof (induction ps arbitrary: n)
  case Nil
  show ?case by simp
next
  case (Cons p rest)
  show ?case
  proof (cases "find_child p (node_children n)")
    case None
    then show ?thesis by (simp add: Cons.IH attach_Cons_missing)
  next
    case (Some i)
    show ?thesis by (simp only: attach_Cons_found [OF Some] hdr_set_children)
  qed
qed

lemma attach_leaf: "node_children n = [] \<Longrightarrow> attach ptc cp ps n = n"
  by (induction ps) (auto simp: attach_Cons_missing)

lemma grown_mono: "grown ptc cp rest m \<Longrightarrow> grown ptc cp (p # rest) m"
  by (auto simp: grown_def)

lemma origin_mono: "origin ptc cp rest n m \<Longrightarrow> origin ptc cp (p # rest) n m"
  by (auto simp: origin_def)

lemma leaves_next_child:
  "ptc_leaves ptc \<Longrightarrow> node_children c = [] \<Longrightarrow> leaves (node_children (next_child ptc cp p c))"
  by (auto simp: next_child_def ptc_leaves_def leaves_def split: option.splits)

lemma attach_nodes:
  assumes "ptc_leaves ptc" and "leaves (node_children n)"
    and "m \<in> set (all_nodes (attach ptc cp ps n))"
  shows "(hdr m = hdr n \<and> map hdr (node_children m) = map hdr (node_children n))
         \<or> (origin ptc cp ps n m \<and> grown ptc cp ps m)"
  using assms(2,3)
proof (induction ps arbitrary: n)
  case Nil
  then have "m = n \<or> m \<in> set (node_children n)"
    by (simp add: all_nodes_unfold sub_nodes_def concat_all_nodes_leaves)
  then show ?case
  proof
    assume "m = n"
    then show ?thesis by simp
  next
    assume "m \<in> set (node_children n)"
    with Nil(1) show ?thesis by (auto simp: origin_def grown_def leaves_def)
  qed
next
  case (Cons p rest)
  let ?cs = "node_children n"
  show ?case
  proof (cases "find_child p ?cs")
    case None
    with Cons.prems have "m \<in> set (all_nodes (attach ptc cp rest n))"
      by (simp add: attach_Cons_missing)
    from Cons.IH [OF Cons.prems(1) this] show ?thesis
      by (auto intro: origin_mono grown_mono)
  next
    case (Some i)
    define c where "c = ?cs ! i"
    define c' where "c' = next_child ptc cp p c"
    define sub where "sub = attach ptc cp rest c'"
    from find_child_Some [OF Some] have i: "i < length ?cs" and cp: "node_url c = p"
      by (simp_all add: c_def)
    then have c_in: "c \<in> set ?cs" by (simp add: c_def)
    with Cons.prems(1) have c_leaf: "node_children c = []" by (simp add: leaves_def)
    have l': "leaves (node_children c')"
      unfolding c'_def using assms(1) c_leaf by (rule leaves_next_child)
    have hsub: "hdr sub = hdr c" by (simp add: sub_def c'_def hdr_attach)
    have R: "attach ptc cp (p # rest) n = set_children n (?cs[i := sub])"
      by (simp only: attach_Cons_found [OF Some] sub_def c'_def c_def)
    from Cons.prems(2) have "m \<in> set (all_nodes (set_children n (?cs[i := sub])))"
      by (simp only: R)
    then have "m = set_children n (?cs[i := sub])
        \<or> (\<exists>y\<in>set (?cs[i := sub]). m \<in> set (all_nodes y))"
      by (auto simp: all_nodes_unfold [of "set_children n (?cs[i := sub])"] sub_nodes_def)
    then show ?thesis
    proof
      assume m: "m = set_children n (?cs[i := sub])"
      have "map hdr (?cs[i := sub]) = (map hdr ?cs)[i := hdr (?cs ! i)]"
        by (simp add: map_update hsub c_def)
      also have "\<dots> = map hdr ?cs"
        using i by (metis list_update_id map_update)
      finally show ?thesis by (simp add: m)
    next
      assume "\<exists>y\<in>set (?cs[i := sub]). m \<in> set (all_nodes y)"
      then obtain y where y: "y \<in> set (?cs[i := sub])" and my: "m \<in> set (all_nodes y)" by blast
      from y have "y = sub \<or> y \<in> set ?cs"
        using set_update_subset_insert [of ?cs i sub] by auto
      then show ?thesis
      proof
        assume "y \<in> set ?cs"
        with Cons.prems(1) have "node_children y = []" by (simp add: leaves_def)
        with my have "m = y" by (simp add: all_nodes_unfold sub_nodes_def)
        with \<open>y \<in> set ?cs\<close> \<open>node_children y = []\<close> show ?thesis
          by (auto simp: origin_def grown_def)
      next
        assume "y = sub"
        with my have "m \<in> set (all_nodes (attach ptc cp rest c'))" by (simp add: sub_def)
        from Cons.IH [OF l' this]
        show ?thesis
        proof
          assume a: "hdr m = hdr c' \<and> map hdr (node_children m) = map hdr (node_children c')"
          then have hm: "hdr m = hdr c" by (simp add: c'_def)
          then have o: "origin ptc cp (p # rest) n m" using c_in by (auto simp: origin_def)
          have "grown ptc cp (p # rest) m"
          proof (cases "node_children c' = []")
            case True
            with a show ?thesis by (simp add: grown_def)
          next
            case False
            then obtain g where g: "map_of ptc p = Some g" "p \<noteq> cp" "c' = set_children c g"
              using c_leaf by (auto simp: c'_def next_child_def split: option.splits if_splits)
            moreover from hm cp have "node_url m = p" by (simp add: hdr_def)
            ultimately show ?thesis using a by (auto simp: grown_def)
          qed
          with o show ?thesis by simp
        next
          assume a: "origin ptc cp rest c' m \<and> grown ptc cp rest m"
          then have g: "grown ptc cp (p # rest) m" by (simp add: grown_mono)
          from a have "(\<exists>c2\<in>set (node_children c'). hdr m = hdr c2)
              \<or> (\<exists>q\<in>set rest. q \<noteq> cp \<and> (\<exists>cs. map_of ptc q = Some cs \<and> (\<exists>c\<in>set cs. hdr m = hdr c)))"
            by (simp add: origin_def)
          then have "origin ptc cp (p # rest) n m"
          proof
            assume e: "\<exists>c2\<in>set (node_children c'). hdr m = hdr c2"
            then have "node_children c' \<noteq> []" by auto
            then obtain g where g: "map_of ptc p = Some g" "p \<noteq> cp" "c' = set_children c g"
              using c_leaf by (auto simp: c'_def next_child_def split: option.splits if_splits)
            with e show ?thesis by (auto simp: origin_def)
          next
            assume "\<exists>q\<in>set rest. q \<noteq> cp \<and> (\<exists>cs. map_of ptc q = Some cs \<and> (\<exists>c\<in>set cs. hdr m = hdr c))"
            then show ?thesis by (auto simp: origin_def)
          qed
          with g show ?thesis by simp
        qed
      qed
    qed
  qed
qed

section \<open>The result of a build\<close>

lemma walk_to_root_chain:
  "walk_to_root its path acc = acc @ filter (has_key its) (ancestor_chain path)"
proof (induction its path acc rule: walk_to_root.induct)
  case (1 its path acc)
  show ?case
  proof (cases "path = ''/''")
    case True
    then show ?thesis by simp
  next
    case False
    then have ne: "get_parent_url path \<noteq> path" by (simp add: get_parent_url_fixed)
    let ?acc = "if has_key its path then acc @ [path] else acc"
    have "walk_to_root its path acc = walk_to_root its (get_parent_url path) ?acc"
      using False ne by (simp add: walk_to_root.simps [of its path] Let_def parent_lookup)
    also have "\<dots> = ?acc @ filter (has_key its) (ancestor_chain (get_parent_url path))"
      using False ne by (intro "1.IH") (simp_all add: parent_lookup)
    also have "\<dots> = acc @ filter (has_key its) (ancestor_chain path)"
      using False by (simp add: ancestor_chain_step)
    finally show ?thesis .
  qed
qed

lemma ancestor_chain_length: "x \<in> set (ancestor_chain p) \<Longrightarrow> length x \<le> length p \<and> x \<noteq> ''/''"
proof (induction p rule: ancestor_chain.induct)
  case (1 path)
  show ?case
  proof (cases "path = ''/''")
    case True
    with "1.prems" show ?thesis by simp
  next
    case False
    with "1.prems" have "x = path \<or> x \<in> set (ancestor_chain (get_parent_url path))"
      by (simp add: ancestor_chain_step)
    then show ?thesis
    proof
      assume "x = path"
      with False show ?thesis by simp
    next
      assume x: "x \<in> set (ancestor_chain (get_parent_url path))"
      with "1.IH" False have ih: "length x \<le> length (get_parent_url path) \<and> x \<noteq> ''/''" by simp
      from x have "get_parent_url path \<noteq> ''/''"
        by auto
      with get_parent_url_shorter [of path] ih show ?thesis by simp
    qed
  qed
qed

lemma ancestor_chain_distinct: "distinct (ancestor_chain p)"
proof (induction p rule: ancestor_chain.induct)
  case (1 path)
  show ?case
  proof (cases "path = ''/''")
    case True
    then show ?thesis by simp
  next
    case False
    have "path \<notin> set (ancestor_chain (get_parent_url path))"
    proof
      assume x: "path \<in> set (ancestor_chain (get_parent_url path))"
      then have "get_parent_url path \<noteq> ''/''"
        by auto
      with get_parent_url_shorter [of path] ancestor_chain_length [OF x] show False by simp
    qed
    with False "1.IH" show ?thesis by (simp add: ancestor_chain_step)
  qed
qed

lemma build_empty:
  "\<not> (\<exists>u. is_item rules u) \<Longrightarrow> build_breadcrumb_tree self rules cp = Inr None"
  by (simp add: build_breadcrumb_tree_def Let_def materialize_empty)

lemma items_of_root: "\<exists>it. map_of (fst (items_of self rules cp)) ''/'' = Some it"
  using items_of_keys [of self rules cp "''/''"] by (auto simp: has_key_def)

lemma build_root:
  assumes "\<exists>u. is_item rules u"
    and "map_of (fst (items_of self rules ''/'')) ''/'' = Some it"
  shows "build_breadcrumb_tree self rules ''/'' = Inr (Some (item_dict it ''/'' True))"
  using assms
  by (simp add: build_breadcrumb_tree_def Let_def materialize_empty items_of_def [symmetric]
      dict_item_def)

lemma build_tree:
  assumes "\<exists>u. is_item rules u" and "cp \<noteq> ''/''"
    and "map_of (fst (items_of self rules cp)) ''/'' = Some it"
  shows "build_breadcrumb_tree self rules cp
    = Inr (Some (attach (group_items (fst (items_of self rules cp)) (snd (items_of self rules cp)) cp)
                   cp (rev (filter (has_key (fst (items_of self rules cp))) (ancestor_chain cp)))
                   (root_level (fst (items_of self rules cp)) (snd (items_of self rules cp)) cp it)))"
proof -
  have k: "has_key (fst (items_of self rules cp)) ''/''"
    using assms(3) by (simp add: has_key_def)
  show ?thesis
    using assms k
    by (simp add: build_breadcrumb_tree_def Let_def materialize_empty items_of_def [symmetric]
        dict_item_def walk_to_root_chain root_level_def split: option.splits)
qed

lemma synthesized_root:
  assumes "\<not> is_item rules ''/''"
  shows "map_of (fst (items_of self rules cp)) ''/''
           = Some (new_item (Static ''Home'') ''/'' (Some 0) (cp = ''/''))"
  using assms
  by (simp add: items_of_def ensure_root_def materialize_keys Let_def update_conv')

lemma hdr_item_dict: "hdr (item_dict it u cur) = (resolve_text (item_text it), u, item_order it, cur)"
  by (simp add: hdr_def item_dict_def)

lemma hdr_root_level:
  "hdr (root_level its im cp it) = (resolve_text (item_text it), ''/'', item_order it, dict_get im ''/'' False)"
  by (simp add: root_level_def hdr_item_dict split: option.splits)

text \<open>
  C7. When at least one rule gives an item, the build returns, for every current path, a
  tree whose root has the url \<^verbatim>\<open>/\<close>; when no rule gives the item \<^verbatim>\<open>/\<close>, the
  root is the made-up one with the text \<^verbatim>\<open>Home\<close> and the order 0.
\<close>

theorem root_always_present:
  assumes "\<exists>u. is_item rules u"
  shows "\<exists>t. build_breadcrumb_tree self rules current_path = Inr (Some t)
             \<and> node_url t = ''/''
             \<and> (\<not> is_item rules ''/'' \<longrightarrow> node_text t = ''Home'' \<and> node_order t = 0)"
proof -
  obtain it where it: "map_of (fst (items_of self rules current_path)) ''/'' = Some it"
    using items_of_root by blast
  have syn: "\<not> is_item rules ''/'' \<Longrightarrow> resolve_text (item_text it) = ''Home'' \<and> item_order it = 0"
    using synthesized_root [of rules self current_path] it by (auto simp: new_item_def)
  show ?thesis
  proof (cases "current_path = ''/''")
    case True
    with assms it have "build_breadcrumb_tree self rules current_path
        = Inr (Some (item_dict it ''/'' True))"
      by (simp add: build_root)
    with syn show ?thesis by (auto simp: item_dict_def)
  next
    case False
    let ?t = "attach (group_items (fst (items_of self rules current_path))
                        (snd (items_of self rules current_path)) current_path)
                current_path
                (rev (filter (has_key (fst (items_of self rules current_path)))
                        (ancestor_chain current_path)))
                (root_level (fst (items_of self rules current_path))
                   (snd (items_of self rules current_path)) current_path it)"
    from assms False it have b: "build_breadcrumb_tree self rules current_path = Inr (Some ?t)"
      by (rule build_tree)
    have "hdr ?t = (resolve_text (item_text it), ''/'', item_order it,
                    dict_get (snd (items_of self rules current_path)) ''/'' False)"
      by (simp add: hdr_attach hdr_root_level)
    then have "node_url ?t = ''/'' \<and> node_text ?t = resolve_text (item_text it)
        \<and> node_order ?t = item_order it"
      by (simp add: hdr_def)
    with b syn show ?thesis by auto
  qed
qed

text \<open>The theorem at a catalog with the one route \<^verbatim>\<open>/x\<close> and the current path \<^verbatim>\<open>/x/y\<close>.\<close>

theorem root_always_present_witness:
  "is_item [view_rule ''/x'' ''x''] ''/x'' \<and> \<not> is_item [view_rule ''/x'' ''x''] ''/''
   \<and> (\<exists>t. build_breadcrumb_tree (registered []) [view_rule ''/x'' ''x''] ''/x/y'' = Inr (Some t)
           \<and> node_url t = ''/'' \<and> node_text t = ''Home'' \<and> node_order t = 0)"
proof -
  have i: "is_item [view_rule ''/x'' ''x''] ''/x''" by code_simp
  have n: "\<not> is_item [view_rule ''/x'' ''x''] ''/''" by code_simp
  from i have "\<exists>u. is_item [view_rule ''/x'' ''x''] u" ..
  from root_always_present [OF this, of "registered []" "''/x/y''"] i n
  show ?thesis by blast
qed

lemma group_items_leaves: "ptc_leaves (group_items its im cp)"
  unfolding ptc_leaves_def leaves_def using group_items_member(1) by blast

lemma node_children_item_dict [simp]: "node_children (item_dict it u cur) = []"
  by (simp add: item_dict_def)

lemma root_level_children:
  "node_children (root_level its im cp it)
     = (case map_of (group_items its im cp) ''/'' of Some cs \<Rightarrow> cs | None \<Rightarrow> [])"
  by (simp add: root_level_def split: option.splits)

lemma root_level_leaves: "leaves (node_children (root_level its im cp it))"
proof (cases "map_of (group_items its im cp) ''/''")
  case None
  then show ?thesis by (simp add: root_level_children leaves_def)
next
  case (Some cs)
  with group_items_leaves [of its im cp] have "leaves cs" by (simp add: ptc_leaves_def)
  with Some show ?thesis by (simp add: root_level_children)
qed

lemma flag_lookup:
  "mat_ok cp st \<Longrightarrow> has_key (fst st) u \<Longrightarrow> dict_get (snd st) u False = (u = cp)"
  by (simp add: mat_ok_def dict_get_def)

lemma hdr_fields:
  "hdr m = hdr c \<Longrightarrow>
   node_url m = node_url c \<and> node_order m = node_order c
     \<and> node_is_current_path m = node_is_current_path c \<and> node_text m = node_text c"
  by (simp add: hdr_def)

lemma map_hdr_Nil: "map hdr xs = map hdr [] \<Longrightarrow> xs = []"
  by simp

text \<open>What every node of an assembled tree looks like.\<close>

lemma tree_node:
  assumes its: "its = fst (items_of self rules cp)" and im: "im = snd (items_of self rules cp)"
    and it: "map_of its ''/'' = Some it" and cp: "cp \<noteq> ''/''"
    and m: "m \<in> set (all_nodes (attach (group_items its im cp) cp ps (root_level its im cp it)))"
  shows "(node_url m = ''/'' \<or> (has_key its (node_url m) \<and> kept cp (node_url m)))
    \<and> (node_is_current_path m \<longleftrightarrow> node_url m = cp)
    \<and> (node_children m = []
        \<or> (node_url m \<noteq> cp
           \<and> (\<exists>cs. map_of (group_items its im cp) (node_url m) = Some cs
                    \<and> map hdr (node_children m) = map hdr cs)))"
proof -
  let ?G = "group_items its im cp"
  let ?root = "root_level its im cp it"
  have ok: "mat_ok cp (its, im)"
    using mat_ok_items_of [of cp self rules] by (simp add: its im)
  have root_key: "has_key its ''/''" using it by (simp add: has_key_def)
  have hroot: "hdr ?root = (resolve_text (item_text it), ''/'', item_order it, False)"
    using flag_lookup [OF ok, of "''/''"] root_key cp by (simp add: hdr_root_level)
  from attach_nodes [OF group_items_leaves root_level_leaves m]
  show ?thesis
  proof
    assume a: "hdr m = hdr ?root \<and> map hdr (node_children m) = map hdr (node_children ?root)"
    with hroot have u: "node_url m = ''/''" and f: "\<not> node_is_current_path m"
      by (simp_all add: hdr_def)
    have "node_children m = []
        \<or> (\<exists>cs. map_of ?G ''/'' = Some cs \<and> map hdr (node_children m) = map hdr cs)"
      using a by (cases "map_of ?G ''/''") (simp_all add: root_level_children)
    with u f cp show ?thesis by auto
  next
    assume b: "origin ?G cp ps ?root m \<and> grown ?G cp ps m"
    have "\<exists>q cs c. map_of ?G q = Some cs \<and> c \<in> set cs \<and> hdr m = hdr c"
    proof -
      from b have "(\<exists>c\<in>set (node_children ?root). hdr m = hdr c)
          \<or> (\<exists>q\<in>set ps. q \<noteq> cp \<and> (\<exists>cs. map_of ?G q = Some cs \<and> (\<exists>c\<in>set cs. hdr m = hdr c)))"
        by (simp add: origin_def)
      then show ?thesis
      proof
        assume "\<exists>c\<in>set (node_children ?root). hdr m = hdr c"
        then show ?thesis
          by (cases "map_of ?G ''/''") (auto simp: root_level_children)
      next
        assume "\<exists>q\<in>set ps. q \<noteq> cp \<and> (\<exists>cs. map_of ?G q = Some cs \<and> (\<exists>c\<in>set cs. hdr m = hdr c))"
        then show ?thesis by blast
      qed
    qed
    then obtain q cs c where g: "map_of ?G q = Some cs" and c: "c \<in> set cs" and h: "hdr m = hdr c"
      by blast
    from h have eq: "node_url m = node_url c" "node_is_current_path m = node_is_current_path c"
      by (simp_all add: hdr_def)
    have k: "has_key its (node_url m)" and kp: "kept cp (node_url m)"
      using group_items_member(2,3) [OF g c] by (simp_all add: eq)
    have "node_is_current_path m = dict_get im (node_url m) False"
      using group_items_member(5) [OF g c] by (simp add: eq)
    also have "\<dots> = (node_url m = cp)"
      using flag_lookup [OF ok, of "node_url m"] k by simp
    finally have fl: "node_is_current_path m \<longleftrightarrow> node_url m = cp" .
    from b have "node_children m = []
        \<or> (node_url m \<noteq> cp
           \<and> (\<exists>cs. map_of ?G (node_url m) = Some cs \<and> map hdr (node_children m) = map hdr cs))"
      by (auto simp: grown_def)
    with k kp fl show ?thesis by blast
  qed
qed

lemma all_nodes_item_dict [simp]: "all_nodes (item_dict it u cur) = [item_dict it u cur]"
  by (simp add: item_dict_def)

text \<open>The three ways a build can end.\<close>

lemma build_cases:
  obtains (empty) "\<not> (\<exists>u. is_item rules u)" "build_breadcrumb_tree self rules cp = Inr None"
  | (root) it where "\<exists>u. is_item rules u" "cp = ''/''"
      "build_breadcrumb_tree self rules cp = Inr (Some (item_dict it ''/'' True))"
  | (tree) it where "\<exists>u. is_item rules u" "cp \<noteq> ''/''"
      "map_of (fst (items_of self rules cp)) ''/'' = Some it"
      "build_breadcrumb_tree self rules cp
        = Inr (Some (attach (group_items (fst (items_of self rules cp)) (snd (items_of self rules cp)) cp)
                   cp (rev (filter (has_key (fst (items_of self rules cp))) (ancestor_chain cp)))
                   (root_level (fst (items_of self rules cp)) (snd (items_of self rules cp)) cp it)))"
proof (cases "\<exists>u. is_item rules u")
  case False
  then show ?thesis using build_empty empty by blast
next
  case True
  obtain it where it: "map_of (fst (items_of self rules cp)) ''/'' = Some it"
    using items_of_root by blast
  show ?thesis
  proof (cases "cp = ''/''")
    case c: True
    with True it build_root [of rules self it] show ?thesis using root by blast
  next
    case c: False
    from build_tree [OF True c it] True c it show ?thesis using tree by blast
  qed
qed

lemma built_node:
  assumes b: "build_breadcrumb_tree self rules cp = Inr (Some t)" and m: "m \<in> set (all_nodes t)"
  shows "(node_url m = ''/'' \<or> (is_item rules (node_url m) \<and> kept cp (node_url m)))
    \<and> (node_is_current_path m \<longleftrightarrow> node_url m = cp)
    \<and> (node_children m = []
        \<or> (node_url m \<noteq> cp
           \<and> (\<exists>cs. map_of (group_items (fst (items_of self rules cp))
                              (snd (items_of self rules cp)) cp) (node_url m) = Some cs
                    \<and> map hdr (node_children m) = map hdr cs)))"
proof (cases rule: build_cases [of rules self cp])
  case empty
  with b show ?thesis by simp
next
  case (root it)
  with b m have "m = item_dict it ''/'' True" by simp
  with root show ?thesis by (simp add: item_dict_def)
next
  case (tree it)
  with b m have "m \<in> set (all_nodes
      (attach (group_items (fst (items_of self rules cp)) (snd (items_of self rules cp)) cp)
         cp (rev (filter (has_key (fst (items_of self rules cp))) (ancestor_chain cp)))
         (root_level (fst (items_of self rules cp)) (snd (items_of self rules cp)) cp it)))"
    by simp
  from tree_node [OF refl refl tree(3) tree(2) this]
  show ?thesis by (auto simp: items_of_keys)
qed

lemma built_root_url:
  assumes "build_breadcrumb_tree self rules cp = Inr (Some t)"
  shows "node_url t = ''/''"
proof (cases rule: build_cases [of rules self cp])
  case empty
  with assms show ?thesis by simp
next
  case (root it)
  with assms show ?thesis by (auto simp: item_dict_def)
next
  case (tree it)
  with assms have "hdr t = hdr (root_level (fst (items_of self rules cp))
                                  (snd (items_of self rules cp)) cp it)"
    by (auto simp: hdr_attach)
  then have "hdr t = (resolve_text (item_text it), ''/'', item_order it,
                      dict_get (snd (items_of self rules cp)) ''/'' False)"
    by (simp only: hdr_root_level)
  then show ?thesis by (simp add: hdr_def)
qed

text \<open>Children in the order of the sort key.\<close>

lemma sorted_by_hdr:
  assumes "map hdr xs = map hdr ys" and "sorted (map (\<lambda>c. (node_order c, node_url c)) ys)"
  shows "sorted (map (\<lambda>c. (node_order c, node_url c)) xs)"
proof -
  have "map (\<lambda>c. (node_order c, node_url c)) xs = map (\<lambda>h. (fst (snd (snd h)), fst (snd h))) (map hdr xs)"
    by (simp add: hdr_def)
  also have "\<dots> = map (\<lambda>h. (fst (snd (snd h)), fst (snd h))) (map hdr ys)"
    by (simp only: assms(1))
  also have "\<dots> = map (\<lambda>c. (node_order c, node_url c)) ys"
    by (simp add: hdr_def)
  finally show ?thesis using assms(2) by simp
qed

lemma built_children_sorted:
  assumes "build_breadcrumb_tree self rules cp = Inr (Some t)" and "m \<in> set (all_nodes t)"
  shows "sorted (map (\<lambda>c. (node_order c, node_url c)) (node_children m))"
proof -
  from built_node [OF assms]
  have "node_children m = []
        \<or> (\<exists>cs. map_of (group_items (fst (items_of self rules cp))
                              (snd (items_of self rules cp)) cp) (node_url m) = Some cs
                    \<and> map hdr (node_children m) = map hdr cs)"
    by blast
  then show ?thesis
  proof
    assume "node_children m = []"
    then show ?thesis by simp
  next
    assume "\<exists>cs. map_of (group_items (fst (items_of self rules cp))
                              (snd (items_of self rules cp)) cp) (node_url m) = Some cs
                    \<and> map hdr (node_children m) = map hdr cs"
    then obtain cs where g: "map_of (group_items (fst (items_of self rules cp))
                              (snd (items_of self rules cp)) cp) (node_url m) = Some cs"
      and h: "map hdr (node_children m) = map hdr cs" by blast
    from h group_items_Some(3) [OF g] show ?thesis by (rule sorted_by_hdr)
  qed
qed

lemma add_child_sorted:
  assumes "sorted (map (\<lambda>x. (item_order x, item_url x)) (item_children self))"
  shows "sorted (map (\<lambda>x. (item_order x, item_url x)) (item_children (add_child self child)))"
  using assms by (simp add: add_child_def)

lemma normalize_url_trailing:
  "normalize_url s = ''/'' \<or> normalize_url s = [] \<or> last (normalize_url s) \<noteq> slash"
  using no_double_last_butlast [OF collapse_slashes_no_double [of "strip_variables s"]]
  by (auto simp: normalize_url_def Let_def)

lemma is_item_trailing: "is_item rules u \<Longrightarrow> u = ''/'' \<or> u = [] \<or> last u \<noteq> slash"
  using normalize_url_trailing by (auto simp: is_item_def list_ex_iff)

lemma prefix_is_child_of:
  assumes "prefix (cp @ ''/'') u" and "cp \<noteq> ''/''" and "u = [] \<or> last u \<noteq> slash"
  shows "is_child_of u cp"
proof -
  from assms(1) obtain r where u: "u = cp @ slash # r" by (auto simp: prefix_def)
  with assms(3) have "r \<noteq> []" by auto
  with u assms(2) show ?thesis by (simp add: is_child_of_def nth_append)
qed

lemma kept_not_below:
  assumes "kept cp u" and "u = [] \<or> last u \<noteq> slash"
  shows "\<not> prefix (cp @ ''/'') u"
proof
  assume p: "prefix (cp @ ''/'') u"
  then have ne: "u \<noteq> cp" by (auto simp: prefix_def)
  show False
  proof (cases "cp = ''/''")
    case True
    with assms(1) ne show False by (simp add: kept_def is_child_of_def)
  next
    case False
    from prefix_is_child_of [OF p False assms(2)] assms(1) ne show False
      by (simp add: kept_def)
  qed
qed

lemma root_not_child: "cp \<noteq> ''/'' \<Longrightarrow> \<not> is_child_of ''/'' cp"
  by (simp add: is_child_of_def)

lemma built_not_below:
  assumes b: "build_breadcrumb_tree self rules cp = Inr (Some t)" and m: "m \<in> set (all_nodes t)"
  shows "\<not> (node_url m \<noteq> cp \<and> is_child_of (node_url m) cp)"
    and "cp \<noteq> [] \<Longrightarrow> \<not> prefix (cp @ ''/'') (node_url m)"
    and "node_url m = cp \<Longrightarrow> node_children m = []"
proof -
  from built_node [OF b m]
  have u: "node_url m = ''/'' \<or> (is_item rules (node_url m) \<and> kept cp (node_url m))"
    and c: "node_children m = [] \<or> node_url m \<noteq> cp"
    by blast+
  from c show "node_url m = cp \<Longrightarrow> node_children m = []" by blast
  from u show "\<not> (node_url m \<noteq> cp \<and> is_child_of (node_url m) cp)"
  proof
    assume "node_url m = ''/''"
    then show ?thesis using root_not_child [of cp] by (cases "cp = ''/''") auto
  next
    assume "is_item rules (node_url m) \<and> kept cp (node_url m)"
    then show ?thesis by (simp add: kept_def)
  qed
  assume ne: "cp \<noteq> []"
  from u show "\<not> prefix (cp @ ''/'') (node_url m)"
  proof
    assume "node_url m = ''/''"
    with ne show ?thesis by (cases cp) (auto simp: prefix_def)
  next
    assume a: "is_item rules (node_url m) \<and> kept cp (node_url m)"
    then have "node_url m \<noteq> ''/''" by (simp add: kept_def)
    with a is_item_trailing [of rules "node_url m"]
    have "node_url m = [] \<or> last (node_url m) \<noteq> slash" by blast
    with a show ?thesis by (intro kept_not_below) simp_all
  qed
qed

text \<open>
  C1. No node of a built tree passes the test \<^verbatim>\<open>_is_child_of\<close> against the current
  path, and a node with the url of the current path has no children. For a current path
  that is not the empty string, no node has a url that starts with the current path
  followed by a slash; \<^verbatim>\<open>get_breadcrumb_tree\<close> never builds for the empty string, so
  this holds of its tree for every request path. With the routes \<^verbatim>\<open>/\<close>, \<^verbatim>\<open>/a\<close>,
  \<^verbatim>\<open>/a/b\<close>, \<^verbatim>\<open>/a/b/c\<close> the tree for \<^verbatim>\<open>/a/b\<close> ends at \<^verbatim>\<open>/a/b\<close>.
\<close>

theorem current_path_has_no_descendants:
  "(\<forall>t m. build_breadcrumb_tree self rules current_path = Inr (Some t) \<longrightarrow>
          m \<in> set (all_nodes t) \<longrightarrow>
            \<not> (node_url m \<noteq> current_path \<and> is_child_of (node_url m) current_path)
            \<and> (current_path \<noteq> [] \<longrightarrow> \<not> prefix (current_path @ ''/'') (node_url m))
            \<and> (node_url m = current_path \<longrightarrow> node_children m = []))
   \<and> (\<forall>t m. get_breadcrumb_tree self rules request_path = Inr (Some t) \<longrightarrow>
          m \<in> set (all_nodes t) \<longrightarrow>
            \<not> prefix ((if rstrip_slash request_path = [] then ''/''
                        else rstrip_slash request_path) @ ''/'') (node_url m))
   \<and> build_breadcrumb_tree (registered [])
        [view_rule ''/'' ''index'', view_rule ''/a'' ''a'', view_rule ''/a/b'' ''b'',
         view_rule ''/a/b/c'' ''c''] ''/a/b''
      = Inr (Some (Node ''Home'' ''/'' 0 False
          [Node ''A'' ''/a'' 0 False [Node ''B'' ''/a/b'' 0 True []]]))"
proof -
  have ex: "build_breadcrumb_tree (registered [])
        [view_rule ''/'' ''index'', view_rule ''/a'' ''a'', view_rule ''/a/b'' ''b'',
         view_rule ''/a/b/c'' ''c''] ''/a/b''
      = Inr (Some (Node ''Home'' ''/'' 0 False
          [Node ''A'' ''/a'' 0 False [Node ''B'' ''/a/b'' 0 True []]]))"
    by code_simp
  let ?cp = "if rstrip_slash request_path = [] then ''/'' else rstrip_slash request_path"
  have g: "get_breadcrumb_tree self rules request_path = build_breadcrumb_tree self rules ?cp"
    by (simp add: get_breadcrumb_tree_def Let_def)
  have ne: "?cp \<noteq> []" by simp
  have req: "\<not> prefix (?cp @ ''/'') (node_url m)"
    if "get_breadcrumb_tree self rules request_path = Inr (Some t)" "m \<in> set (all_nodes t)"
    for t m
    using built_not_below(2) [OF _ that(2) ne, of self rules] that(1) g by simp
  from ex req show ?thesis using built_not_below [of self rules current_path] by blast
qed

text \<open>
  The theorem at the tree for \<^verbatim>\<open>/a/b\<close>, without and with a trailing slash in the
  request, over a catalog with two levels below \<^verbatim>\<open>/a/b\<close>.
\<close>

theorem current_path_has_no_descendants_witness:
  "build_breadcrumb_tree (registered [(''b'', ''Page B'', None)])
        [view_rule ''/a'' ''a'', view_rule ''/a/<int:id>/b/'' ''b'', view_rule ''/a/b/c'' ''c'',
         view_rule ''/a/b/c/d'' ''d''] ''/a/b''
      = Inr (Some (Node ''Home'' ''/'' 0 False
          [Node ''A'' ''/a'' 0 False [Node ''Page B'' ''/a/b'' 0 True []]]))
   \<and> get_breadcrumb_tree (registered [(''b'', ''Page B'', None)])
        [view_rule ''/a'' ''a'', view_rule ''/a/<int:id>/b/'' ''b'', view_rule ''/a/b/c'' ''c'',
         view_rule ''/a/b/c/d'' ''d''] ''/a/b/''
      = Inr (Some (Node ''Home'' ''/'' 0 False
          [Node ''A'' ''/a'' 0 False [Node ''Page B'' ''/a/b'' 0 True []]]))
   \<and> node_children (Node ''Page B'' ''/a/b'' 0 True []) = []
   \<and> \<not> prefix ''/a/b/'' ''/a''"
proof -
  let ?b = "Node ''Page B'' ''/a/b'' 0 True []"
  let ?a = "Node ''A'' ''/a'' 0 False [?b]"
  let ?t = "Node ''Home'' ''/'' 0 False [?a]"
  let ?rules = "[view_rule ''/a'' ''a'', view_rule ''/a/<int:id>/b/'' ''b'',
                 view_rule ''/a/b/c'' ''c'', view_rule ''/a/b/c/d'' ''d'']"
  have b: "build_breadcrumb_tree (registered [(''b'', ''Page B'', None)]) ?rules ''/a/b''
      = Inr (Some ?t)"
    by code_simp
  have g: "get_breadcrumb_tree (registered [(''b'', ''Page B'', None)]) ?rules ''/a/b/''
      = Inr (Some ?t)"
    by code_simp
  have r: "rstrip_slash ''/a/b/'' = ''/a/b''" by code_simp
  have m: "?b \<in> set (all_nodes ?t)" "?a \<in> set (all_nodes ?t)" by simp_all
  note inst = current_path_has_no_descendants
         [of "registered [(''b'', ''Page B'', None)]" ?rules "''/a/b''" "''/a/b/''"]
  from inst b m(1) have "node_children ?b = []" by auto
  moreover from inst g m(2) r have "\<not> prefix (''/a/b'' @ ''/'') (node_url ?a)" by auto
  ultimately show ?thesis using b g by simp
qed

section \<open>The order of the children\<close>

text \<open>
  C4. In every built tree the children of every node are in the order of the key
  (order, url), and \<^verbatim>\<open>add_child\<close> keeps the children of an item in that order. With
  the orders 2, 0, 1 for \<^verbatim>\<open>/c\<close>, \<^verbatim>\<open>/a\<close>, \<^verbatim>\<open>/b\<close> the children of the root are
  \<^verbatim>\<open>/a\<close>, \<^verbatim>\<open>/b\<close>, \<^verbatim>\<open>/c\<close>; with equal orders the url decides.
\<close>

theorem children_sorted:
  "(\<forall>t m. build_breadcrumb_tree self rules current_path = Inr (Some t) \<longrightarrow>
          m \<in> set (all_nodes t) \<longrightarrow>
            sorted (map (\<lambda>c. (node_order c, node_url c)) (node_children m)))
   \<and> (sorted (map (\<lambda>x. (item_order x, item_url x)) (item_children item)) \<longrightarrow>
        sorted (map (\<lambda>x. (item_order x, item_url x)) (item_children (add_child item child))))
   \<and> build_breadcrumb_tree
        (registered [(''c'', ''C'', Some 2), (''a'', ''A'', Some 0), (''b'', ''B'', Some 1)])
        [view_rule ''/c'' ''c'', view_rule ''/a'' ''a'', view_rule ''/b'' ''b''] ''/a''
      = Inr (Some (Node ''Home'' ''/'' 0 False
          [Node ''A'' ''/a'' 0 True [], Node ''B'' ''/b'' 1 False [], Node ''C'' ''/c'' 2 False []]))
   \<and> build_breadcrumb_tree
        (registered [(''y'', ''Y'', None), (''x'', ''X'', Some 0), (''w'', ''W'', Some (- 1))])
        [view_rule ''/y'' ''y'', view_rule ''/x'' ''x'', view_rule ''/w'' ''w''] ''/y''
      = Inr (Some (Node ''Home'' ''/'' 0 False
          [Node ''W'' ''/w'' (- 1) False [], Node ''X'' ''/x'' 0 False [], Node ''Y'' ''/y'' 0 True []]))"
proof -
  have 1: "build_breadcrumb_tree
        (registered [(''c'', ''C'', Some 2), (''a'', ''A'', Some 0), (''b'', ''B'', Some 1)])
        [view_rule ''/c'' ''c'', view_rule ''/a'' ''a'', view_rule ''/b'' ''b''] ''/a''
      = Inr (Some (Node ''Home'' ''/'' 0 False
          [Node ''A'' ''/a'' 0 True [], Node ''B'' ''/b'' 1 False [], Node ''C'' ''/c'' 2 False []]))"
    by code_simp
  have 2: "build_breadcrumb_tree
        (registered [(''y'', ''Y'', None), (''x'', ''X'', Some 0), (''w'', ''W'', Some (- 1))])
        [view_rule ''/y'' ''y'', view_rule ''/x'' ''x'', view_rule ''/w'' ''w''] ''/y''
      = Inr (Some (Node ''Home'' ''/'' 0 False
          [Node ''W'' ''/w'' (- 1) False [], Node ''X'' ''/x'' 0 False [], Node ''Y'' ''/y'' 0 True []]))"
    by code_simp
  from 1 2 show ?thesis
    using built_children_sorted [of self rules current_path] add_child_sorted [of item child]
    by blast
qed

text \<open>
  The theorem at the tree for \<^verbatim>\<open>/a/z\<close> over five routes, and at an item that gets
  a child in front of the one it has.
\<close>

theorem children_sorted_witness:
  "build_breadcrumb_tree (registered [(''b'', ''B'', Some 5)])
        [view_rule ''/'' ''index'', view_rule ''/c'' ''c'', view_rule ''/a'' ''a'',
         view_rule ''/b'' ''b'', view_rule ''/a/z'' ''z''] ''/a/z''
      = Inr (Some (Node ''Home'' ''/'' 0 False
          [Node ''A'' ''/a'' 0 False [Node ''Z'' ''/a/z'' 0 True []],
           Node ''C'' ''/c'' 0 False [], Node ''B'' ''/b'' 5 False []]))
   \<and> sorted [(0 :: int, ''/a''), (0, ''/c''), (5, ''/b'')]
   \<and> item_children (add_child (BreadcrumbItem (Static ''P'') ''/p'' 0 False
                                  [BreadcrumbItem (Static ''R'') ''/p/r'' 1 False []])
                               (BreadcrumbItem (Static ''Q'') ''/p/q'' 0 False []))
      = [BreadcrumbItem (Static ''Q'') ''/p/q'' 0 False [],
         BreadcrumbItem (Static ''R'') ''/p/r'' 1 False []]
   \<and> sorted [(0 :: int, ''/p/q''), (1, ''/p/r'')]"
proof -
  let ?t = "Node ''Home'' ''/'' 0 False
          [Node ''A'' ''/a'' 0 False [Node ''Z'' ''/a/z'' 0 True []],
           Node ''C'' ''/c'' 0 False [], Node ''B'' ''/b'' 5 False []]"
  let ?p = "BreadcrumbItem (Static ''P'') ''/p'' 0 False
              [BreadcrumbItem (Static ''R'') ''/p/r'' 1 False []]"
  let ?q = "BreadcrumbItem (Static ''Q'') ''/p/q'' 0 False []"
  have b: "build_breadcrumb_tree (registered [(''b'', ''B'', Some 5)])
        [view_rule ''/'' ''index'', view_rule ''/c'' ''c'', view_rule ''/a'' ''a'',
         view_rule ''/b'' ''b'', view_rule ''/a/z'' ''z''] ''/a/z'' = Inr (Some ?t)"
    by code_simp
  have a: "item_children (add_child ?p ?q)
      = [BreadcrumbItem (Static ''Q'') ''/p/q'' 0 False [],
         BreadcrumbItem (Static ''R'') ''/p/r'' 1 False []]"
    by code_simp
  have m: "?t \<in> set (all_nodes ?t)" by simp
  have s: "sorted (map (\<lambda>x. (item_order x, item_url x)) (item_children ?p))" by simp
  note inst = children_sorted [of "registered [(''b'', ''B'', Some 5)]"
      "[view_rule ''/'' ''index'', view_rule ''/c'' ''c'', view_rule ''/a'' ''a'',
        view_rule ''/b'' ''b'', view_rule ''/a/z'' ''z'']" "''/a/z''" ?p ?q]
  from inst b m have "sorted (map (\<lambda>c. (node_order c, node_url c)) (node_children ?t))"
    by blast
  moreover from inst s
  have "sorted (map (\<lambda>x. (item_order x, item_url x)) (item_children (add_child ?p ?q)))"
    by blast
  ultimately show ?thesis using a b by simp
qed

section \<open>The tree for the root path\<close>

text \<open>
  C5, as stated, fails: an application whose only rule is the one for static files gives
  no item, and the build for \<^verbatim>\<open>/\<close> returns the empty dictionary, not a root.
\<close>

theorem root_path_counterexample:
  "build_breadcrumb_tree (registered [])
     [\<lparr>rule_str = ''/static/<path:filename>'', endpoint = ''static'',
       methods = {''GET'', ''HEAD'', ''OPTIONS''}\<rparr>] ''/''
   = Inr None"
  by code_simp

text \<open>
  C5, amended. When at least one rule gives an item, the build for \<^verbatim>\<open>/\<close> returns the
  root alone: url \<^verbatim>\<open>/\<close>, marked as the current path, no children, whatever else is
  in the catalog. When no rule gives an item, it returns the empty dictionary.
\<close>

theorem root_path_short_circuit:
  "((\<exists>u. is_item rules u) \<longrightarrow>
      (\<exists>txt ord. build_breadcrumb_tree self rules ''/'' = Inr (Some (Node txt ''/'' ord True []))))
   \<and> (\<not> (\<exists>u. is_item rules u) \<longrightarrow> build_breadcrumb_tree self rules ''/'' = Inr None)"
proof (cases rule: build_cases [of rules self "''/''"])
  case empty
  then show ?thesis by simp
next
  case (root it)
  then show ?thesis by (auto simp: item_dict_def)
next
  case (tree it)
  then show ?thesis by simp
qed

text \<open>The theorem at a catalog of three routes without a route for the root.\<close>

theorem root_path_short_circuit_witness:
  "is_item [view_rule ''/x'' ''x'', view_rule ''/x/y'' ''y'', view_rule ''/z'' ''z''] ''/x''
   \<and> build_breadcrumb_tree (registered [])
        [view_rule ''/x'' ''x'', view_rule ''/x/y'' ''y'', view_rule ''/z'' ''z''] ''/''
      = Inr (Some (Node ''Home'' ''/'' 0 True []))"
proof -
  have i: "is_item [view_rule ''/x'' ''x'', view_rule ''/x/y'' ''y'', view_rule ''/z'' ''z''] ''/x''"
    by code_simp
  have b: "build_breadcrumb_tree (registered [])
        [view_rule ''/x'' ''x'', view_rule ''/x/y'' ''y'', view_rule ''/z'' ''z''] ''/''
      = Inr (Some (Node ''Home'' ''/'' 0 True []))"
    by code_simp
  from i have "\<exists>u. is_item [view_rule ''/x'' ''x'', view_rule ''/x/y'' ''y'', view_rule ''/z'' ''z''] u" ..
  with root_path_short_circuit [of "[view_rule ''/x'' ''x'', view_rule ''/x/y'' ''y'', view_rule ''/z'' ''z'']" "registered []"]
  have "\<exists>txt ord. build_breadcrumb_tree (registered [])
        [view_rule ''/x'' ''x'', view_rule ''/x/y'' ''y'', view_rule ''/z'' ''z''] ''/''
        = Inr (Some (Node txt ''/'' ord True []))" by blast
  with i b show ?thesis by simp
qed

section \<open>Skipped levels\<close>

lemma all_nodes_parent:
  "m \<in> set (all_nodes t) \<Longrightarrow> m = t \<or> (\<exists>n\<in>set (all_nodes t). m \<in> set (node_children n))"
proof (induction t arbitrary: m)
  case (Node tx u ord cur cs)
  let ?t = "Node tx u ord cur cs"
  from Node.prems have "m = ?t \<or> (\<exists>c\<in>set cs. m \<in> set (all_nodes c))" by auto
  then show ?case
  proof
    assume "m = ?t"
    then show ?thesis by simp
  next
    assume "\<exists>c\<in>set cs. m \<in> set (all_nodes c)"
    then obtain c where c: "c \<in> set cs" and mc: "m \<in> set (all_nodes c)" by blast
    from Node.IH [OF c mc] show ?thesis
    proof
      assume "m = c"
      with c have "m \<in> set (node_children ?t)" by simp
      moreover have "?t \<in> set (all_nodes ?t)" by simp
      ultimately show ?thesis by blast
    next
      assume "\<exists>n\<in>set (all_nodes c). m \<in> set (node_children n)"
      then obtain n where "n \<in> set (all_nodes c)" and "m \<in> set (node_children n)" by blast
      with c have "n \<in> set (all_nodes ?t)" by auto
      with \<open>m \<in> set (node_children n)\<close> show ?thesis by blast
    qed
  qed
qed

lemma built_child_parent:
  assumes b: "build_breadcrumb_tree self rules cp = Inr (Some t)" and m: "m \<in> set (all_nodes t)"
    and c: "c \<in> set (node_children m)"
  shows "get_parent_url (node_url c) = node_url m"
proof -
  let ?G = "group_items (fst (items_of self rules cp)) (snd (items_of self rules cp)) cp"
  from c have "node_children m \<noteq> []" by auto
  with built_node [OF b m] obtain cs where g: "map_of ?G (node_url m) = Some cs"
    and h: "map hdr (node_children m) = map hdr cs" by blast
  from c have "hdr c \<in> set (map hdr (node_children m))" by simp
  with h have "hdr c \<in> set (map hdr cs)" by simp
  then obtain c' where c': "c' \<in> set cs" and e: "hdr c = hdr c'" by auto
  from group_items_member(4) [OF g c'] hdr_url [OF e] show ?thesis by simp
qed

lemma built_node_parent:
  assumes b: "build_breadcrumb_tree self rules cp = Inr (Some t)" and m: "m \<in> set (all_nodes t)"
    and nr: "node_url m \<noteq> ''/''"
  shows "get_parent_url (node_url m) = ''/'' \<or> is_item rules (get_parent_url (node_url m))"
proof -
  from built_root_url [OF b] nr have "m \<noteq> t" by auto
  with all_nodes_parent [OF m] obtain n where n: "n \<in> set (all_nodes t)"
    and mn: "m \<in> set (node_children n)" by blast
  from built_child_parent [OF b n mn] have "get_parent_url (node_url m) = node_url n" .
  with built_node [OF b n] show ?thesis by auto
qed

text \<open>
  C3, as stated, fails: with \<^verbatim>\<open>/\<close>, \<^verbatim>\<open>/a\<close> and \<^verbatim>\<open>/a/b/c\<close> registered and
  \<^verbatim>\<open>/a/b\<close> not, the tree for \<^verbatim>\<open>/a/b/c\<close> is the root with the child \<^verbatim>\<open>/a\<close>, and
  \<^verbatim>\<open>/a\<close> has no children: \<^verbatim>\<open>/a/b/c\<close> is grouped under \<^verbatim>\<open>/a/b\<close>, a list that
  is never handed to a node.
\<close>

theorem skipped_level_counterexample:
  "build_breadcrumb_tree (registered [])
     [view_rule ''/'' ''index'', view_rule ''/a'' ''a'', view_rule ''/a/b/c'' ''c''] ''/a/b/c''
   = Inr (Some (Node ''Home'' ''/'' 0 False [Node ''A'' ''/a'' 0 False []]))
   \<and> ''/a/b/c'' \<notin> set (map node_url
        (all_nodes (Node ''Home'' ''/'' 0 False [Node ''A'' ''/a'' 0 False []])))"
proof -
  have "build_breadcrumb_tree (registered [])
     [view_rule ''/'' ''index'', view_rule ''/a'' ''a'', view_rule ''/a/b/c'' ''c''] ''/a/b/c''
   = Inr (Some (Node ''Home'' ''/'' 0 False [Node ''A'' ''/a'' 0 False []]))"
    by code_simp
  then show ?thesis by simp
qed

text \<open>
  C3, amended. Every node of a built tree is the root or an item, the children of a node
  are items whose parent url, as \<^verbatim>\<open>_get_parent_url\<close> gives it, is the url of that
  node, and so a node other than the root is in the tree only if its parent url is the
  root or an item: nothing is made up for a missing level, and an item under a missing
  level is left out. For \<^verbatim>\<open>/\<close>, \<^verbatim>\<open>/a\<close>, \<^verbatim>\<open>/a/b/c\<close> the tree for \<^verbatim>\<open>/a/b/c\<close>
  ends at \<^verbatim>\<open>/a\<close>.
\<close>

theorem skipped_level_not_attached:
  "(\<forall>t m. build_breadcrumb_tree self rules current_path = Inr (Some t) \<longrightarrow>
          m \<in> set (all_nodes t) \<longrightarrow>
            (node_url m = ''/'' \<or> is_item rules (node_url m))
            \<and> (\<forall>c\<in>set (node_children m). get_parent_url (node_url c) = node_url m)
            \<and> (node_url m \<noteq> ''/'' \<longrightarrow>
                 get_parent_url (node_url m) = ''/''
                 \<or> is_item rules (get_parent_url (node_url m))))
   \<and> build_breadcrumb_tree (registered [])
        [view_rule ''/'' ''index'', view_rule ''/a'' ''a'', view_rule ''/a/b/c'' ''c''] ''/a/b/c''
      = Inr (Some (Node ''Home'' ''/'' 0 False [Node ''A'' ''/a'' 0 False []]))"
proof -
  have "build_breadcrumb_tree (registered [])
        [view_rule ''/'' ''index'', view_rule ''/a'' ''a'', view_rule ''/a/b/c'' ''c''] ''/a/b/c''
      = Inr (Some (Node ''Home'' ''/'' 0 False [Node ''A'' ''/a'' 0 False []]))"
    by code_simp
  moreover have "\<And>t m. build_breadcrumb_tree self rules current_path = Inr (Some t) \<Longrightarrow>
          m \<in> set (all_nodes t) \<Longrightarrow> node_url m = ''/'' \<or> is_item rules (node_url m)"
    using built_node by blast
  ultimately show ?thesis
    using built_child_parent [of self rules current_path]
      built_node_parent [of self rules current_path]
    by blast
qed

text \<open>The theorem at a catalog with a complete branch beside a skipped level.\<close>

theorem skipped_level_not_attached_witness:
  "build_breadcrumb_tree (registered [])
        [view_rule ''/docs'' ''docs'', view_rule ''/docs/api/v1'' ''v1'',
         view_rule ''/docs/faq'' ''faq''] ''/docs/faq''
      = Inr (Some (Node ''Home'' ''/'' 0 False
          [Node ''Docs'' ''/docs'' 0 False [Node ''Faq'' ''/docs/faq'' 0 True []]]))
   \<and> is_item [view_rule ''/docs'' ''docs'', view_rule ''/docs/api/v1'' ''v1'',
               view_rule ''/docs/faq'' ''faq''] ''/docs/faq''
   \<and> get_parent_url ''/docs/faq'' = ''/docs''"
proof -
  let ?leaf = "Node ''Faq'' ''/docs/faq'' 0 True []"
  let ?docs = "Node ''Docs'' ''/docs'' 0 False [?leaf]"
  let ?t = "Node ''Home'' ''/'' 0 False [?docs]"
  let ?rules = "[view_rule ''/docs'' ''docs'', view_rule ''/docs/api/v1'' ''v1'',
                 view_rule ''/docs/faq'' ''faq'']"
  have b: "build_breadcrumb_tree (registered []) ?rules ''/docs/faq'' = Inr (Some ?t)"
    by code_simp
  have m: "?docs \<in> set (all_nodes ?t)" and l: "?leaf \<in> set (all_nodes ?t)"
    and c: "?leaf \<in> set (node_children ?docs)" by simp_all
  note inst = skipped_level_not_attached [of "registered []" ?rules "''/docs/faq''"]
  from inst b m c have "get_parent_url (node_url ?leaf) = node_url ?docs" by blast
  moreover from inst b l have "node_url ?leaf = ''/'' \<or> is_item ?rules (node_url ?leaf)" by blast
  ultimately show ?thesis using b by simp
qed

section \<open>A current path without known ancestors\<close>






section \<open>The mark of the current path\<close>

lemma sub_nodes_leaves: "leaves (node_children n) \<Longrightarrow> sub_nodes n = node_children n"
  by (simp add: sub_nodes_def concat_all_nodes_leaves)

lemma sub_nodes_set_children [simp]:
  "sub_nodes (set_children n cs) = concat (map all_nodes cs)"
  by (simp add: sub_nodes_def)

lemma concat_all_nodes_update:
  assumes "leaves cs" and "i < length cs"
  shows "concat (map all_nodes (cs[i := sub])) = take i cs @ all_nodes sub @ drop (Suc i) cs"
proof -
  have "cs[i := sub] = take i cs @ sub # drop (Suc i) cs"
    using assms(2) by (rule upd_conv_take_nth_drop)
  then show ?thesis
    using leaves_take_drop [OF assms(1)] by (simp add: concat_all_nodes_leaves)
qed

lemma node_url_attach: "node_url (attach ptc cp ps n) = node_url n"
  using hdr_attach [of ptc cp ps n] by (simp add: hdr_def)

lemma node_url_next_child: "node_url (next_child ptc cp p c) = node_url c"
  using hdr_next_child [of ptc cp p c] by (simp add: hdr_def)

lemma attach_distinct:
  assumes wf: "ptc_wf ptc"
    and "leaves (node_children n)" and "distinct (map node_url (node_children n))"
    and "\<forall>c\<in>set (node_children n). get_parent_url (node_url c) = q0"
    and "q0 \<notin> set ps" and "distinct ps"
  shows "distinct (map node_url (sub_nodes (attach ptc cp ps n)))
    \<and> (\<forall>m\<in>set (sub_nodes (attach ptc cp ps n)). get_parent_url (node_url m) \<in> insert q0 (set ps))"
  using assms(2-)
proof (induction ps arbitrary: n q0)
  case Nil
  then show ?case by (simp add: sub_nodes_leaves)
next
  case (Cons p rest)
  let ?cs = "node_children n"
  show ?case
  proof (cases "find_child p ?cs")
    case None
    from Cons.prems have "q0 \<notin> set rest" "distinct rest" by simp_all
    from Cons.IH [OF Cons.prems(1-3) this] None show ?thesis
      by (auto simp: attach_Cons_missing)
  next
    case (Some i)
    define c where "c = ?cs ! i"
    define c' where "c' = next_child ptc cp p c"
    define sub where "sub = attach ptc cp rest c'"
    from find_child_Some [OF Some] have i: "i < length ?cs" and cu: "node_url c = p"
      by (simp_all add: c_def)
    then have c_in: "c \<in> set ?cs" by (simp add: c_def)
    with Cons.prems(1) have c_leaf: "node_children c = []" by (simp add: leaves_def)
    from c_in Cons.prems(3) cu have pq: "get_parent_url p = q0" by auto
    have kids: "leaves (node_children c') \<and> distinct (map node_url (node_children c'))
        \<and> (\<forall>c2\<in>set (node_children c'). get_parent_url (node_url c2) = p)"
    proof (cases "node_children c' = []")
      case True
      then show ?thesis by (simp add: leaves_def)
    next
      case False
      then obtain g where "map_of ptc p = Some g" "node_children c' = g"
        using c_leaf by (auto simp: c'_def next_child_def split: option.splits if_splits)
      with wf show ?thesis by (simp add: ptc_wf_def)
    qed
    from Cons.prems(4,5) have p_rest: "p \<notin> set rest" "distinct rest" and q0p: "q0 \<noteq> p"
      and q0_rest: "q0 \<notin> set rest" by auto
    from kids p_rest
    have ih: "distinct (map node_url (sub_nodes sub))
        \<and> (\<forall>m\<in>set (sub_nodes sub). get_parent_url (node_url m) \<in> insert p (set rest))"
      unfolding sub_def by (intro Cons.IH) simp_all
    have su: "node_url sub = p" by (simp add: sub_def c'_def node_url_attach node_url_next_child cu)
    have R: "attach ptc cp (p # rest) n = set_children n (?cs[i := sub])"
      by (simp only: attach_Cons_found [OF Some] sub_def c'_def c_def)
    have S: "sub_nodes (attach ptc cp (p # rest) n)
        = take i ?cs @ sub # sub_nodes sub @ drop (Suc i) ?cs"
      by (simp add: R concat_all_nodes_update [OF Cons.prems(1) i] all_nodes_unfold [of sub])
    have split: "?cs = take i ?cs @ c # drop (Suc i) ?cs"
      unfolding c_def using i by (rule id_take_nth_drop)
    have d1: "distinct (map node_url (take i ?cs) @ p # map node_url (drop (Suc i) ?cs))"
    proof -
      have "map node_url ?cs = map node_url (take i ?cs) @ p # map node_url (drop (Suc i) ?cs)"
        by (subst split) (simp add: cu)
      with Cons.prems(2) show ?thesis by simp
    qed
    have other: "get_parent_url (node_url x) = q0"
      if "x \<in> set (take i ?cs) \<or> x \<in> set (drop (Suc i) ?cs)" for x
      using that Cons.prems(3) by (auto dest: in_set_takeD in_set_dropD)
    have below: "get_parent_url (node_url m) \<noteq> q0" if "m \<in> set (sub_nodes sub)" for m
      using that ih q0p q0_rest by auto
    have disj: "node_url m \<noteq> node_url x"
      if "m \<in> set (sub_nodes sub)" "x \<in> set (take i ?cs) \<or> x \<in> set (drop (Suc i) ?cs)" for m x
      using below [OF that(1)] other [OF that(2)] by auto
    have notp: "node_url m \<noteq> p" if "m \<in> set (sub_nodes sub)" for m
      using below [OF that] pq by auto
    have "distinct (map node_url (take i ?cs) @ p # map node_url (sub_nodes sub)
                      @ map node_url (drop (Suc i) ?cs))"
    proof -
      have a: "set (map node_url (sub_nodes sub)) \<inter> set (map node_url (take i ?cs)) = {}"
        using disj by fastforce
      have b: "set (map node_url (sub_nodes sub)) \<inter> set (map node_url (drop (Suc i) ?cs)) = {}"
        using disj by fastforce
      have c: "p \<notin> set (map node_url (sub_nodes sub))"
        using notp by fastforce
      from d1 ih a b c show ?thesis
        by (simp add: Int_commute disjoint_iff) blast
    qed
    then have D: "distinct (map node_url (sub_nodes (attach ptc cp (p # rest) n)))"
      by (simp add: S su)
    have P: "get_parent_url (node_url m) \<in> insert q0 (set (p # rest))"
      if "m \<in> set (sub_nodes (attach ptc cp (p # rest) n))" for m
    proof -
      from that S have "m \<in> set (take i ?cs) \<or> m \<in> set (drop (Suc i) ?cs) \<or> m = sub
          \<or> m \<in> set (sub_nodes sub)" by auto
      then show ?thesis using other su pq ih by auto
    qed
    from D P show ?thesis by blast
  qed
qed

lemma length_filter_distinct:
  "distinct (map f xs) \<Longrightarrow> length (filter (\<lambda>x. f x = a) xs) \<le> 1"
proof (induction xs)
  case Nil
  show ?case by simp
next
  case (Cons x xs)
  show ?case
  proof (cases "f x = a")
    case True
    with Cons.prems have "a \<notin> f ` set xs" by auto
    then have "filter (\<lambda>x. f x = a) xs = []" by (auto simp: filter_empty_conv)
    with True show ?thesis by simp
  next
    case False
    with Cons show ?thesis by simp
  qed
qed

lemma group_items_wf:
  assumes "distinct (map fst its)"
  shows "ptc_wf (group_items its im cp)"
  unfolding ptc_wf_def leaves_def
  using group_items_Some(4) [OF _ assms] group_items_member(1,4) by blast

lemma built_flag_iff:
  assumes "build_breadcrumb_tree self rules cp = Inr (Some t)" and "m \<in> set (all_nodes t)"
  shows "node_is_current_path m \<longleftrightarrow> node_url m = cp"
  using built_node [OF assms] by blast

lemma built_flagged_filter:
  assumes "build_breadcrumb_tree self rules cp = Inr (Some t)"
  shows "filter node_is_current_path (all_nodes t) = filter (\<lambda>m. node_url m = cp) (all_nodes t)"
  by (rule filter_cong) (simp_all add: built_flag_iff [OF assms])

lemma path_distinct:
  "distinct (rev (filter (has_key its) (ancestor_chain cp)))
   \<and> ''/'' \<notin> set (rev (filter (has_key its) (ancestor_chain cp)))"
  using ancestor_chain_distinct [of cp] ancestor_chain_length [of "''/''" cp] by auto

lemma root_level_wf:
  assumes "ptc_wf (group_items its im cp)"
  shows "leaves (node_children (root_level its im cp it))
    \<and> distinct (map node_url (node_children (root_level its im cp it)))
    \<and> (\<forall>c\<in>set (node_children (root_level its im cp it)). get_parent_url (node_url c) = ''/'')"
proof (cases "map_of (group_items its im cp) ''/''")
  case None
  then show ?thesis by (simp add: root_level_children leaves_def)
next
  case (Some cs)
  with assms show ?thesis by (simp add: root_level_children ptc_wf_def)
qed

lemma built_at_most_one:
  assumes b: "build_breadcrumb_tree self rules cp = Inr (Some t)"
  shows "length (filter node_is_current_path (all_nodes t)) \<le> 1"
proof (cases rule: build_cases [of rules self cp])
  case empty
  with b show ?thesis by simp
next
  case (root it)
  with b show ?thesis by auto
next
  case (tree it)
  let ?its = "fst (items_of self rules cp)"
  let ?im = "snd (items_of self rules cp)"
  let ?G = "group_items ?its ?im cp"
  let ?ps = "rev (filter (has_key ?its) (ancestor_chain cp))"
  let ?root = "root_level ?its ?im cp it"
  from tree b have t: "t = attach ?G cp ?ps ?root" by simp
  have "distinct (map fst ?its)"
    using mat_ok_items_of [of cp self rules] by (simp add: mat_ok_def)
  then have wf: "ptc_wf ?G" by (rule group_items_wf)
  note rw = root_level_wf [OF wf, of it]
  have pd: "''/'' \<notin> set ?ps" "distinct ?ps" using path_distinct [of ?its cp] by simp_all
  from attach_distinct [OF wf _ _ _ pd, of ?root cp] rw
  have d: "distinct (map node_url (sub_nodes t))" by (simp add: t)
  have "node_url t = ''/''" using b by (rule built_root_url)
  with tree(2) have "filter (\<lambda>m. node_url m = cp) (all_nodes t)
      = filter (\<lambda>m. node_url m = cp) (sub_nodes t)"
    by (auto simp: all_nodes_unfold [of t])
  with length_filter_distinct [OF d, of cp] show ?thesis
    by (simp add: built_flagged_filter [OF b])
qed

lemma descending_snoc:
  "descending q (xs @ [y])
     \<longleftrightarrow> descending q xs \<and> get_parent_url y = (if xs = [] then q else last xs)"
  by (induction xs arbitrary: q) auto

lemma hd_ancestor_chain: "p \<noteq> ''/'' \<Longrightarrow> ancestor_chain p \<noteq> [] \<and> hd (ancestor_chain p) = p"
  by (simp add: ancestor_chain_step)

lemma ancestor_chain_empty: "ancestor_chain p = [] \<longleftrightarrow> p = ''/''"
  using hd_ancestor_chain [of p] by auto

lemma descending_rev_chain: "descending ''/'' (rev (ancestor_chain p))"
proof (induction p rule: ancestor_chain.induct)
  case (1 path)
  show ?case
  proof (cases "path = ''/''")
    case True
    then show ?thesis by simp
  next
    case False
    with "1.IH" have ih: "descending ''/'' (rev (ancestor_chain (get_parent_url path)))" by simp
    have "get_parent_url path
        = (if rev (ancestor_chain (get_parent_url path)) = [] then ''/''
           else last (rev (ancestor_chain (get_parent_url path))))"
      using hd_ancestor_chain [of "get_parent_url path"]
      by (auto simp: ancestor_chain_empty last_rev)
    with ih False show ?thesis
      by (simp add: ancestor_chain_step [of path] descending_snoc)
  qed
qed

lemma attach_reaches:
  assumes "ps \<noteq> []" and "last ps = cp" and "distinct ps" and "descending q0 ps"
    and "\<forall>p\<in>set ps. has_key its p \<and> kept cp p"
    and "hd ps \<in> node_url ` set (node_children n)"
  shows "cp \<in> node_url ` set (all_nodes (attach (group_items its im cp) cp ps n))"
  using assms
proof (induction ps arbitrary: n q0)
  case Nil
  then show ?case by simp
next
  case (Cons p rest)
  let ?G = "group_items its im cp"
  let ?cs = "node_children n"
  from Cons.prems(6) obtain i where Some: "find_child p ?cs = Some i"
    using find_child_None [of p ?cs] by (cases "find_child p ?cs") auto
  define c' where "c' = next_child ?G cp p (?cs ! i)"
  define sub where "sub = attach ?G cp rest c'"
  from find_child_Some [OF Some] have i: "i < length ?cs" and cu: "node_url (?cs ! i) = p"
    by simp_all
  have R: "attach ?G cp (p # rest) n = set_children n (?cs[i := sub])"
    by (simp only: attach_Cons_found [OF Some] sub_def c'_def)
  from i have "sub \<in> set (?cs[i := sub])" by (simp add: set_update_memI)
  then have incl: "set (all_nodes sub) \<subseteq> set (all_nodes (attach ?G cp (p # rest) n))"
    by (auto simp: R all_nodes_unfold [of "set_children n (?cs[i := sub])"] sub_nodes_def)
  have "cp \<in> node_url ` set (all_nodes sub)"
  proof (cases "rest = []")
    case True
    with Cons.prems(2) have "p = cp" by simp
    with True cu have "node_url sub = cp"
      by (simp add: sub_def c'_def node_url_next_child)
    then show ?thesis by (auto simp: all_nodes_unfold [of sub])
  next
    case False
    with Cons.prems(2) have "cp \<in> set rest" by (metis last.simps last_in_set)
    with Cons.prems(3) have pc: "p \<noteq> cp" by auto
    from False obtain p2 rest2 where r: "rest = p2 # rest2" by (cases rest) auto
    with Cons.prems(4,5) have "get_parent_url p2 = p" "has_key its p2" "kept cp p2" by simp_all
    with group_items_complete [of its p2 cp im]
    obtain g where g: "map_of ?G p = Some g" "p2 \<in> node_url ` set g" by auto
    with pc have "node_children c' = g" by (simp add: c'_def next_child_def)
    with g r have hd: "hd rest \<in> node_url ` set (node_children c')" by simp
    from Cons.prems False have "last rest = cp" "distinct rest" "descending p rest"
      "\<forall>p\<in>set rest. has_key its p \<and> kept cp p" by simp_all
    from Cons.IH [OF False this hd] show ?thesis by (simp add: sub_def)
  qed
  with incl show ?case by blast
qed

lemma chain_kept:
  assumes "cp \<noteq> ''/''" and "p \<in> set (ancestor_chain cp)"
  shows "kept cp p"
  using ancestor_chain_length [OF assms(2)] assms(1)
  by (auto simp: kept_def is_child_of_def)

lemma built_reaches:
  assumes b: "build_breadcrumb_tree self rules cp = Inr (Some t)"
    and all: "\<forall>p\<in>set (ancestor_chain cp). is_item rules p"
  shows "length (filter node_is_current_path (all_nodes t)) = 1"
proof (cases rule: build_cases [of rules self cp])
  case empty
  with b show ?thesis by simp
next
  case (root it)
  with b show ?thesis by (auto simp: item_dict_def)
next
  case (tree it)
  let ?its = "fst (items_of self rules cp)"
  let ?im = "snd (items_of self rules cp)"
  let ?G = "group_items ?its ?im cp"
  let ?ps = "rev (ancestor_chain cp)"
  let ?root = "root_level ?its ?im cp it"
  have keys: "\<forall>p\<in>set (ancestor_chain cp). has_key ?its p"
    using all by (simp add: items_of_keys)
  then have f: "filter (has_key ?its) (ancestor_chain cp) = ancestor_chain cp"
    by (simp add: filter_id_conv)
  from tree b f have t: "t = attach ?G cp ?ps ?root" by simp
  from tree(2) have ne: "?ps \<noteq> []" and last: "last ?ps = cp"
    using hd_ancestor_chain [of cp] by (simp_all add: last_rev)
  have d: "distinct ?ps" using ancestor_chain_distinct [of cp] by simp
  have desc: "descending ''/'' ?ps" by (rule descending_rev_chain)
  have kk: "\<forall>p\<in>set ?ps. has_key ?its p \<and> kept cp p"
    using keys chain_kept [OF tree(2)] by simp
  from ne obtain top rest where pr: "?ps = top # rest" by (cases ?ps) auto
  with desc kk have "get_parent_url top = ''/''" "has_key ?its top" "kept cp top" by auto
  with group_items_complete [of ?its top cp ?im]
  obtain cs where "map_of ?G ''/'' = Some cs" "top \<in> node_url ` set cs" by auto
  then have "hd ?ps \<in> node_url ` set (node_children ?root)"
    by (simp add: pr root_level_children)
  from attach_reaches [OF ne last d desc kk this]
  have "cp \<in> node_url ` set (all_nodes t)" by (simp add: t)
  then have "filter (\<lambda>m. node_url m = cp) (all_nodes t) \<noteq> []"
    by (auto simp: filter_empty_conv)
  then have "filter node_is_current_path (all_nodes t) \<noteq> []"
    by (simp add: built_flagged_filter [OF b])
  then have "0 < length (filter node_is_current_path (all_nodes t))"
    by simp
  with built_at_most_one [OF b] show ?thesis by linarith
qed

lemma built_unmarked:
  assumes b: "build_breadcrumb_tree self rules cp = Inr (Some t)"
    and "cp \<noteq> ''/''" and "\<not> is_item rules cp"
  shows "filter node_is_current_path (all_nodes t) = []"
proof -
  have "\<not> node_is_current_path m" if "m \<in> set (all_nodes t)" for m
    using built_node [OF b that] assms(2,3) by auto
  then show ?thesis by (simp add: filter_empty_conv)
qed

lemma build_returns_tree:
  "\<exists>u. is_item rules u \<Longrightarrow> \<exists>t. build_breadcrumb_tree self rules cp = Inr (Some t)"
  by (cases rule: build_cases [of rules self cp]) simp_all

text \<open>
  C2, as stated, fails: \<^verbatim>\<open>/docs/api\<close> is the url of a registered route, but with
  \<^verbatim>\<open>/docs\<close> not registered the tree for \<^verbatim>\<open>/docs/api\<close> is the root alone, and no
  node is marked as the current path.
\<close>

theorem current_marker_counterexample:
  "is_item [view_rule ''/'' ''index'', view_rule ''/docs/api'' ''api''] ''/docs/api''
   \<and> build_breadcrumb_tree (registered [])
        [view_rule ''/'' ''index'', view_rule ''/docs/api'' ''api''] ''/docs/api''
      = Inr (Some (Node ''Home'' ''/'' 0 False []))
   \<and> filter node_is_current_path (all_nodes (Node ''Home'' ''/'' 0 False [])) = []"
  by code_simp

text \<open>
  C2, amended. A catalog that gives an item gives a tree for every current path. In a
  built tree a node is marked exactly when its url is the current path, and at most one
  node is marked. No node is marked when the current path is not \<^verbatim>\<open>/\<close> and is no
  item. Exactly one node is marked when the current path and every ancestor of it below
  the root is an item, which holds for \<^verbatim>\<open>/\<close> itself.
\<close>

theorem single_current_marker:
  "((\<exists>u. is_item rules u) \<longrightarrow>
      (\<exists>t. build_breadcrumb_tree self rules current_path = Inr (Some t)))
   \<and> (\<forall>t. build_breadcrumb_tree self rules current_path = Inr (Some t) \<longrightarrow>
          length (filter node_is_current_path (all_nodes t)) \<le> 1
          \<and> (\<forall>m\<in>set (all_nodes t). node_is_current_path m \<longleftrightarrow> node_url m = current_path)
          \<and> (current_path \<noteq> ''/'' \<and> \<not> is_item rules current_path \<longrightarrow>
               filter node_is_current_path (all_nodes t) = [])
          \<and> ((\<forall>p\<in>set (ancestor_chain current_path). is_item rules p) \<longrightarrow>
               length (filter node_is_current_path (all_nodes t)) = 1))"
  using build_returns_tree [of rules self current_path]
    built_at_most_one [of self rules current_path]
    built_flag_iff [of self rules current_path]
    built_unmarked [of self rules current_path]
    built_reaches [of self rules current_path]
  by blast

text \<open>The theorem at the tree for \<^verbatim>\<open>/a/b\<close> over five routes.\<close>

theorem single_current_marker_witness:
  "ancestor_chain ''/a/b'' = [''/a/b'', ''/a'']
   \<and> is_item [view_rule ''/'' ''index'', view_rule ''/a'' ''a'', view_rule ''/a/b'' ''b'',
               view_rule ''/a/b/c'' ''c'', view_rule ''/d'' ''d''] ''/a/b''
   \<and> is_item [view_rule ''/'' ''index'', view_rule ''/a'' ''a'', view_rule ''/a/b'' ''b'',
               view_rule ''/a/b/c'' ''c'', view_rule ''/d'' ''d''] ''/a''
   \<and> build_breadcrumb_tree (registered [])
        [view_rule ''/'' ''index'', view_rule ''/a'' ''a'', view_rule ''/a/b'' ''b'',
         view_rule ''/a/b/c'' ''c'', view_rule ''/d'' ''d''] ''/a/b''
      = Inr (Some (Node ''Home'' ''/'' 0 False
          [Node ''A'' ''/a'' 0 False [Node ''B'' ''/a/b'' 0 True []],
           Node ''D'' ''/d'' 0 False []]))
   \<and> length (filter node_is_current_path (all_nodes (Node ''Home'' ''/'' 0 False
          [Node ''A'' ''/a'' 0 False [Node ''B'' ''/a/b'' 0 True []],
           Node ''D'' ''/d'' 0 False []]))) = 1"
proof -
  let ?rules = "[view_rule ''/'' ''index'', view_rule ''/a'' ''a'', view_rule ''/a/b'' ''b'',
                 view_rule ''/a/b/c'' ''c'', view_rule ''/d'' ''d'']"
  let ?t = "Node ''Home'' ''/'' 0 False
          [Node ''A'' ''/a'' 0 False [Node ''B'' ''/a/b'' 0 True []],
           Node ''D'' ''/d'' 0 False []]"
  have ch: "ancestor_chain ''/a/b'' = [''/a/b'', ''/a'']" by code_simp
  have i: "is_item ?rules ''/a/b''" "is_item ?rules ''/a''" by code_simp+
  have b: "build_breadcrumb_tree (registered []) ?rules ''/a/b'' = Inr (Some ?t)" by code_simp
  from ch i have all: "\<forall>p\<in>set (ancestor_chain ''/a/b''). is_item ?rules p" by simp
  from single_current_marker [of ?rules "registered []" "''/a/b''"] b all
  have "length (filter node_is_current_path (all_nodes ?t)) = 1" by blast
  with ch i b show ?thesis by blast
qed

end
